theory Spec2Isabelle
  imports Main "HOL-Library.Word" "HOL-Library.Multiset" "HOL-Library.Monad_Syntax"
begin

section \<open>CSR construction on the GPU: \<^verbatim>\<open>sparse_graph.h\<close>\<close>

text \<open>
  The kernels of \<^verbatim>\<open>csc485b::a2::gpu\<close> are embedded as functions on explicit memory
  states. Global arrays are lists; an access outside an array is undefined behaviour
  of the program and is the value \<open>None\<close> of the model (it is not an error that
  the program reports: no kernel and no host function of the file checks anything).

  Every launch uses blocks of 1024 threads. What the CUDA execution model leaves open
  is a parameter of the model: the order in which the threads of a grid perform their
  atomic operations, the order in which the blocks of a grid run, and the contents of
  freshly allocated memory.
\<close>

subsection \<open>Data types\<close>

text \<open>
  Modelled from the spec: \<^verbatim>\<open>data_types.h\<close> is not part of the sources. \<open>node_t\<close> is
  a 32-bit \<^verbatim>\<open>int\<close> (the group totals, a \<^verbatim>\<open>node_t *\<close>, are passed to a kernel
  that takes \<^verbatim>\<open>int *\<close>, and \<^verbatim>\<open>atomicAdd\<close> on a \<open>node_t\<close> is read into an \<^verbatim>\<open>int\<close>);
  \<open>edge_t\<close> is a pair of vertex indices with components \<^verbatim>\<open>x\<close> (source) and
  \<^verbatim>\<open>y\<close> (destination). \<^verbatim>\<open>std::size_t\<close> has 64 bits.
\<close>

type_synonym node_t = "32 word"
type_synonym size_t = "64 word"

datatype edge_t = Edge (edge_x: node_t) (edge_y: node_t)

text \<open>
  The fields \<^verbatim>\<open>n\<close> and \<^verbatim>\<open>m\<close> of the struct are called \<open>sg_n\<close> and \<open>sg_m\<close>:
  a record field is a constant, and the short names are needed for variables.
\<close>

record SparseGraph =
  sg_n :: nat
  sg_m :: nat
  neighbours_start_at :: "node_t list"
  neighbours :: "node_t list"

text \<open>An \<^verbatim>\<open>int\<close> converted to \<^verbatim>\<open>std::size_t\<close>: a negative value becomes a huge one.\<close>

definition to_size_t :: "node_t \<Rightarrow> nat" where
  "to_size_t v = nat (sint v mod 2 ^ 64)"

text \<open>
  \<^verbatim>\<open>smem[i] += val\<close> with \<^verbatim>\<open>val\<close> a \<^verbatim>\<open>std::size_t\<close>: the sum is formed in 64 bits
  and narrowed back to the 32-bit element.
\<close>

definition add_size_t :: "node_t \<Rightarrow> size_t \<Rightarrow> node_t" where
  "add_size_t a val = ucast ((scast a :: size_t) + val)"

text \<open>
  \<^verbatim>\<open>blockIdx.x * blockDim.x + threadIdx.x\<close> is computed on \<^verbatim>\<open>unsigned int\<close>
  (32 bits) before it is stored in a \<^verbatim>\<open>std::size_t\<close>.
\<close>

definition global_id :: "nat \<Rightarrow> nat \<Rightarrow> nat" where
  "global_id blockIdx threadIdx = (blockIdx * 1024 + threadIdx) mod 2 ^ 32"

subsection \<open>Running the threads or the blocks of a grid one after another\<close>

fun run_seq :: "(nat \<Rightarrow> 's \<Rightarrow> 's option) \<Rightarrow> nat list \<Rightarrow> 's \<Rightarrow> 's option" where
  "run_seq f [] s = Some s"
| "run_seq f (i # is) s = (case f i s of None \<Rightarrow> None | Some s' \<Rightarrow> run_seq f is s')"

subsection \<open>\<^verbatim>\<open>single_block_prefix_sum\<close>: what one thread does\<close>

text \<open>
  The control flow of one thread of \<^verbatim>\<open>single_block_prefix_sum\<close>, as the list of
  its memory accesses and of its arrivals at \<^verbatim>\<open>__syncthreads()\<close>.
\<close>

datatype event =
    Sync
  | Read_arr nat | Write_arr nat
  | Read_smem nat | Write_smem nat
  | Read_scratch nat | Write_scratch nat

definition max_number_items :: "nat \<Rightarrow> nat" where
  "max_number_items n = (if n mod 1024 \<noteq> 0 then n div 1024 + 1 else n div 1024)"

text \<open>\<^verbatim>\<open>for (data_idx = th_id; data_idx < n; data_idx += 1024)\<close>: the indices visited.\<close>

function lanes :: "nat \<Rightarrow> nat \<Rightarrow> nat list" where
  "lanes data_idx n = (if data_idx < n then data_idx # lanes (data_idx + 1024) n else [])"
  by pat_completeness auto
termination
  by (relation "measure (\<lambda>(data_idx, n). n - data_idx)") auto

definition load_events :: "nat \<Rightarrow> nat \<Rightarrow> event list" where
  "load_events th_id n =
     concat (map (\<lambda>data_idx. [Read_arr data_idx, Write_smem data_idx, Write_scratch data_idx])
               (lanes th_id n))"

definition copy_events :: "nat \<Rightarrow> nat \<Rightarrow> event list" where
  "copy_events th_id n =
     concat (map (\<lambda>data_idx. [Read_smem data_idx, Write_scratch data_idx]) (lanes th_id n))"

definition store_events :: "nat \<Rightarrow> nat \<Rightarrow> event list" where
  "store_events th_id n =
     concat (map (\<lambda>data_idx. [Read_smem data_idx, Write_arr data_idx]) (lanes th_id n))"

text \<open>
  \<^verbatim>\<open>for (my_lane = th_id, iteration = 0; iteration < max_number_items;
  my_lane += 1024, ++iteration)\<close>
\<close>

function lane_events :: "nat \<Rightarrow> nat \<Rightarrow> nat \<Rightarrow> nat \<Rightarrow> nat \<Rightarrow> event list" where
  "lane_events my_lane iteration items n stride =
     (if iteration < items then
        (if my_lane < n \<and> my_lane \<ge> stride then [Read_scratch (my_lane - stride)] else [])
        @ [Sync]
        @ (if my_lane < n \<and> my_lane \<ge> stride then [Read_smem my_lane, Write_smem my_lane] else [])
        @ [Sync]
        @ lane_events (my_lane + 1024) (iteration + 1) items n stride
      else [])"
  by pat_completeness auto
termination
  by (relation "measure (\<lambda>(my_lane, iteration, items, n, stride). items - iteration)") auto

text \<open>
  \<^verbatim>\<open>for (stride = 1; stride < n; stride <<= 1)\<close>. The loop starts at 1, so the
  stride is never 0; the test \<open>0 < stride\<close> only makes the recursion total.
\<close>

function stride_events :: "nat \<Rightarrow> nat \<Rightarrow> nat \<Rightarrow> event list" where
  "stride_events th_id stride n =
     (if 0 < stride \<and> stride < n then
        copy_events th_id n
        @ [Sync]
        @ lane_events th_id 0 (max_number_items n) n stride
        @ stride_events th_id (2 * stride) n
      else [])"
  by pat_completeness auto
termination
  by (relation "measure (\<lambda>(th_id, stride, n). n - stride)") auto

definition thread_events :: "nat \<Rightarrow> nat \<Rightarrow> event list" where
  "thread_events th_id n =
     load_events th_id n @ [Sync] @ stride_events th_id 1 n @ store_events th_id n"

definition barrier_rounds :: "nat \<Rightarrow> nat \<Rightarrow> nat" where
  "barrier_rounds th_id n = count_list (thread_events th_id n) Sync"

subsection \<open>Atomic addition and the threads of a grid\<close>

text \<open>
  \<^verbatim>\<open>atomicAdd(mem + i, v)\<close>, with \<open>i\<close> the signed offset added to the pointer: the old
  value and the updated array.
\<close>

definition atomicAdd :: "node_t list \<Rightarrow> int \<Rightarrow> node_t \<Rightarrow> (node_t \<times> node_t list) option" where
  "atomicAdd mem i v =
     (if 0 \<le> i \<and> nat i < length mem then Some (mem ! nat i, mem[nat i := mem ! nat i + v])
      else None)"

text \<open>
  The threads of a grid of \<open>grid\<close> blocks are numbered \<open>0 ..< grid * 1024\<close>; thread
  \<open>i\<close> is thread \<open>i mod 1024\<close> of block \<open>i div 1024\<close>. An order of a grid is a list
  that holds every number once.
\<close>

definition thread_gid :: "nat \<Rightarrow> nat" where
  "thread_gid i = global_id (i div 1024) (i mod 1024)"

definition valid_order :: "nat \<Rightarrow> nat list \<Rightarrow> bool" where
  "valid_order k order \<longleftrightarrow> mset order = mset [0..<k]"

subsection \<open>\<^verbatim>\<open>histogram\<close>\<close>

definition histogram_thread ::
  "edge_t list \<Rightarrow> nat \<Rightarrow> nat \<Rightarrow> SparseGraph \<Rightarrow> SparseGraph option" where
  "histogram_thread arr m global_th_id g =
     (if global_th_id < sg_m g then
        (if length arr \<le> global_th_id then None
         else
           let incident_vertex = edge_x (arr ! global_th_id) in
           if to_size_t incident_vertex < sg_n g then
             (case atomicAdd (neighbours_start_at g) (sint incident_vertex + 1) 1 of
                None \<Rightarrow> None
              | Some (old, offs) \<Rightarrow> Some (g\<lparr>neighbours_start_at := offs\<rparr>))
           else Some g)
      else Some g)"

text \<open>The threads perform their \<^verbatim>\<open>atomicAdd\<close> in the order \<open>order\<close>.\<close>

definition histogram ::
  "nat list \<Rightarrow> edge_t list \<Rightarrow> nat \<Rightarrow> SparseGraph \<Rightarrow> SparseGraph option" where
  "histogram order arr m g = run_seq (\<lambda>i. histogram_thread arr m (thread_gid i)) order g"

subsection \<open>\<^verbatim>\<open>prefix_sum\<close>\<close>

text \<open>
  Between two \<^verbatim>\<open>__syncthreads()\<close> the 1024 threads of a block each work on their own
  cell of \<^verbatim>\<open>smem\<close>, so a barrier-delimited phase is a \<open>map\<close> over the thread indices.
  One round of the loop: every thread reads \<^verbatim>\<open>val\<close>, barrier, every thread adds it.
\<close>

definition scan_step :: "nat \<Rightarrow> node_t list \<Rightarrow> node_t list" where
  "scan_step stride smem =
     (let val = map (\<lambda>th_idx. if th_idx \<ge> stride then scast (smem ! (th_idx - stride))
                               else (0 :: size_t)) [0..<1024]
      in map (\<lambda>th_idx. if th_idx \<ge> stride then add_size_t (smem ! th_idx) (val ! th_idx)
                        else smem ! th_idx) [0..<1024])"

text \<open>\<^verbatim>\<open>for (stride = 1; stride < 1024; stride <<= 1)\<close>\<close>

function scan_loop :: "nat \<Rightarrow> node_t list \<Rightarrow> node_t list" where
  "scan_loop stride smem =
     (if 0 < stride \<and> stride < 1024 then scan_loop (2 * stride) (scan_step stride smem)
      else smem)"
  by pat_completeness auto
termination
  by (relation "measure (\<lambda>(stride, smem). 1024 - stride)") auto

text \<open>
  One block of \<^verbatim>\<open>prefix_sum\<close> on the state (graph, \<^verbatim>\<open>block_sums\<close>). The load reads
  \<^verbatim>\<open>neighbours_start_at[global_th_idx % n]\<close> from the array as the blocks that ran
  before have left it.
\<close>

definition prefix_sum_block ::
  "nat \<Rightarrow> nat \<Rightarrow> SparseGraph \<times> node_t list \<Rightarrow> (SparseGraph \<times> node_t list) option" where
  "prefix_sum_block n blockIdx s =
     (let g = fst s; block_sums = snd s; offs = neighbours_start_at g;
          global_th_idx = global_id blockIdx
      in
      if n = 0 \<or> \<not> list_all (\<lambda>th_idx. global_th_idx th_idx mod n < length offs) [0..<1024]
      then None
      else
        let smem = scan_loop 1 (map (\<lambda>th_idx. offs ! (global_th_idx th_idx mod n)) [0..<1024]);
            writers = filter (\<lambda>th_idx. global_th_idx th_idx < n) [0..<1024];
            summers = filter (\<lambda>th_idx. global_th_idx th_idx < n \<and>
                        ((global_th_idx th_idx + 1) mod 1024 = 0 \<or> global_th_idx th_idx = n - 1))
                        [0..<1024]
        in
        if \<not> list_all (\<lambda>th_idx. global_th_idx th_idx < length offs) writers
           \<or> (summers \<noteq> [] \<and> length block_sums \<le> blockIdx)
        then None
        else Some
          (g\<lparr>neighbours_start_at :=
               fold (\<lambda>th_idx a. a[global_th_idx th_idx := smem ! th_idx]) writers offs\<rparr>,
           fold (\<lambda>th_idx b. b[blockIdx := smem ! th_idx]) summers block_sums))"

text \<open>The blocks of the grid run in the order \<open>order\<close>.\<close>

definition prefix_sum ::
  "nat list \<Rightarrow> nat \<Rightarrow> SparseGraph \<times> node_t list \<Rightarrow> (SparseGraph \<times> node_t list) option" where
  "prefix_sum order n s = run_seq (prefix_sum_block n) order s"

subsection \<open>\<^verbatim>\<open>single_block_prefix_sum\<close>: the arrays\<close>

text \<open>All indices that the 1024 threads visit in one of the strided copy loops.\<close>

definition block_lanes :: "nat \<Rightarrow> nat list" where
  "block_lanes n = concat (map (\<lambda>th_id. lanes th_id n) [0..<1024])"

text \<open>
  One iteration of the inner loop: thread \<open>th_id\<close> works on lane \<open>th_id + 1024 * iteration\<close>;
  all threads read \<^verbatim>\<open>val\<close> from \<^verbatim>\<open>scratch\<close>, barrier, all threads add it into \<^verbatim>\<open>smem\<close>.
\<close>

definition lane_round :: "nat \<Rightarrow> nat \<Rightarrow> node_t list \<Rightarrow> nat \<Rightarrow> node_t list \<Rightarrow> node_t list" where
  "lane_round stride n scratch iteration smem =
     (let my_lane = (\<lambda>th_id. th_id + 1024 * iteration);
          val = map (\<lambda>th_id. if my_lane th_id < n \<and> my_lane th_id \<ge> stride
                             then scast (scratch ! (my_lane th_id - stride)) else (0 :: size_t))
                  [0..<1024]
      in fold (\<lambda>th_id sm. if my_lane th_id < n \<and> my_lane th_id \<ge> stride
                           then sm[my_lane th_id := add_size_t (sm ! my_lane th_id) (val ! th_id)]
                           else sm) [0..<1024] smem)"

text \<open>The body of the stride loop on the pair (\<^verbatim>\<open>smem\<close>, \<^verbatim>\<open>scratch\<close>).\<close>

definition stride_step :: "nat \<Rightarrow> nat \<Rightarrow> node_t list \<times> node_t list \<Rightarrow> node_t list \<times> node_t list" where
  "stride_step stride n s =
     (let smem = fst s;
          scratch = fold (\<lambda>data_idx sc. sc[data_idx := smem ! data_idx]) (block_lanes n) (snd s)
      in (fold (lane_round stride n scratch) [0..<max_number_items n] smem, scratch))"

function stride_loop :: "nat \<Rightarrow> nat \<Rightarrow> node_t list \<times> node_t list \<Rightarrow> node_t list \<times> node_t list" where
  "stride_loop stride n s =
     (if 0 < stride \<and> stride < n then stride_loop (2 * stride) n (stride_step stride n s) else s)"
  by pat_completeness auto
termination
  by (relation "measure (\<lambda>(stride, n, s). n - stride)") auto

text \<open>
  The kernel. \<^verbatim>\<open>smem\<close> and \<^verbatim>\<open>scratch\<close> have 6144 cells each, with the contents
  \<open>smem_init\<close> and \<open>scratch_init\<close> when the block starts. The first loop visits every
  index below \<open>n\<close>; the later loops visit the same indices again.
\<close>

definition single_block_prefix_sum ::
  "(nat \<Rightarrow> node_t) \<Rightarrow> (nat \<Rightarrow> node_t) \<Rightarrow> node_t list \<Rightarrow> nat \<Rightarrow> node_t list option" where
  "single_block_prefix_sum smem_init scratch_init arr n =
     (if \<not> list_all (\<lambda>data_idx. data_idx < length arr \<and> data_idx < 6144) (block_lanes n)
      then None
      else
        let smem = fold (\<lambda>data_idx sm. sm[data_idx := arr ! data_idx]) (block_lanes n)
                     (map smem_init [0..<6144]);
            scratch = fold (\<lambda>data_idx sc. sc[data_idx := arr ! data_idx]) (block_lanes n)
                        (map scratch_init [0..<6144]);
            smem = fst (stride_loop 1 n (smem, scratch))
        in Some (fold (\<lambda>data_idx a. a[data_idx := smem ! data_idx]) (block_lanes n) arr))"

subsection \<open>\<^verbatim>\<open>finish_prefix_sum\<close>, \<^verbatim>\<open>create_scratch\<close>, \<^verbatim>\<open>store\<close>\<close>

definition finish_prefix_sum_thread ::
  "node_t list \<Rightarrow> nat \<Rightarrow> nat \<Rightarrow> nat \<Rightarrow> SparseGraph \<Rightarrow> SparseGraph option" where
  "finish_prefix_sum_thread block_sums n blockIdx threadIdx g =
     (let th_idx = global_id blockIdx threadIdx; offs = neighbours_start_at g in
      if th_idx < n \<and> blockIdx > 0 then
        (if th_idx < length offs \<and> blockIdx - 1 < length block_sums
         then Some (g\<lparr>neighbours_start_at :=
                        offs[th_idx := offs ! th_idx + block_sums ! (blockIdx - 1)]\<rparr>)
         else None)
      else Some g)"

text \<open>
  Each thread changes only its own cell and reads \<^verbatim>\<open>block_sums\<close>, which the kernel
  does not write: the threads run in the order of their numbers.
\<close>

definition finish_prefix_sum ::
  "nat \<Rightarrow> node_t list \<Rightarrow> nat \<Rightarrow> SparseGraph \<Rightarrow> SparseGraph option" where
  "finish_prefix_sum grid block_sums n g =
     run_seq (\<lambda>i. finish_prefix_sum_thread block_sums n (i div 1024) (i mod 1024))
       [0..<grid * 1024] g"

definition create_scratch_thread ::
  "SparseGraph \<Rightarrow> nat \<Rightarrow> node_t list \<Rightarrow> node_t list option" where
  "create_scratch_thread g global_th_id scratch =
     (if global_th_id < sg_n g then
        (if global_th_id < length scratch \<and> global_th_id < length (neighbours_start_at g)
         then Some (scratch[global_th_id := neighbours_start_at g ! global_th_id])
         else None)
      else Some scratch)"

definition create_scratch :: "nat \<Rightarrow> SparseGraph \<Rightarrow> node_t list \<Rightarrow> node_t list option" where
  "create_scratch grid g scratch =
     run_seq (\<lambda>i. create_scratch_thread g (thread_gid i)) [0..<grid * 1024] scratch"

text \<open>
  \<^verbatim>\<open>store\<close> on the state (graph, \<^verbatim>\<open>scratch\<close>): the position comes back from
  \<^verbatim>\<open>atomicAdd\<close> as an \<^verbatim>\<open>int\<close> and indexes \<^verbatim>\<open>neighbours\<close>.
\<close>

definition store_thread ::
  "edge_t list \<Rightarrow> nat \<Rightarrow> SparseGraph \<times> node_t list \<Rightarrow> (SparseGraph \<times> node_t list) option" where
  "store_thread edges global_th_id s =
     (let g = fst s; scratch = snd s in
      if global_th_id < sg_m g then
        (if length edges \<le> global_th_id then None
         else
           let edge = edges ! global_th_id;
               this_vertex = edge_x edge;
               other_vertex = edge_y edge
           in case atomicAdd scratch (sint this_vertex) 1 of
                None \<Rightarrow> None
              | Some (pos, scratch') \<Rightarrow>
                  if 0 \<le> sint pos \<and> nat (sint pos) < length (neighbours g)
                  then Some (g\<lparr>neighbours := (neighbours g)[nat (sint pos) := other_vertex]\<rparr>,
                             scratch')
                  else None)
      else Some s)"

definition store ::
  "nat list \<Rightarrow> edge_t list \<Rightarrow> SparseGraph \<times> node_t list \<Rightarrow> (SparseGraph \<times> node_t list) option" where
  "store order edges s = run_seq (\<lambda>i. store_thread edges (thread_gid i)) order s"

subsection \<open>\<^verbatim>\<open>build_graph\<close>\<close>

text \<open>
  What one call of \<^verbatim>\<open>build_graph\<close> does not determine: the orders of the atomic
  operations and of the blocks, and the contents of \<^verbatim>\<open>cudaMalloc\<close>'ed and of shared
  memory before the first write.
\<close>

record run =
  hist_order :: "nat list"
  scan_order :: "nat list"
  store_order :: "nat list"
  blk_sums_init :: "nat \<Rightarrow> node_t"
  prefix_sums_init :: "nat \<Rightarrow> node_t"
  smem_init :: "nat \<Rightarrow> node_t"
  scratch_init :: "nat \<Rightarrow> node_t"

text \<open>
  The two grid sizes are computed on \<^verbatim>\<open>std::size_t\<close> and stored in a \<^verbatim>\<open>uint32_t\<close>.
\<close>

definition num_blocks :: "nat \<Rightarrow> nat" where
  "num_blocks n = ((n + 1 + 1024 - 1) mod 2 ^ 64) div 1024 mod 2 ^ 32"

definition num_blocks_edges :: "nat \<Rightarrow> nat" where
  "num_blocks_edges m = ((m + 1024 - 1) mod 2 ^ 64) div 1024 mod 2 ^ 32"

definition valid_run :: "run \<Rightarrow> nat \<Rightarrow> nat \<Rightarrow> bool" where
  "valid_run r m n \<longleftrightarrow>
     valid_order (num_blocks_edges m * 1024) (hist_order r) \<and>
     valid_order (num_blocks n) (scan_order r) \<and>
     valid_order (num_blocks_edges m * 1024) (store_order r)"

text \<open>
  Two runs: the threads and blocks of every grid in the order of their numbers, and in
  the opposite order; fresh memory holds the value \<open>junk\<close>.
\<close>

definition in_order_run :: "node_t \<Rightarrow> nat \<Rightarrow> nat \<Rightarrow> run" where
  "in_order_run junk m n =
     \<lparr>hist_order = [0..<num_blocks_edges m * 1024], scan_order = [0..<num_blocks n],
      store_order = [0..<num_blocks_edges m * 1024],
      blk_sums_init = (\<lambda>_. junk), prefix_sums_init = (\<lambda>_. junk),
      smem_init = (\<lambda>_. junk), scratch_init = (\<lambda>_. junk)\<rparr>"

definition reverse_run :: "node_t \<Rightarrow> nat \<Rightarrow> nat \<Rightarrow> run" where
  "reverse_run junk m n =
     \<lparr>hist_order = rev [0..<num_blocks_edges m * 1024], scan_order = rev [0..<num_blocks n],
      store_order = rev [0..<num_blocks_edges m * 1024],
      blk_sums_init = (\<lambda>_. junk), prefix_sums_init = (\<lambda>_. junk),
      smem_init = (\<lambda>_. junk), scratch_init = (\<lambda>_. junk)\<rparr>"

text \<open>The scan stages of \<^verbatim>\<open>build_graph\<close>: the three launches between the two
  \<^verbatim>\<open>cudaDeviceSynchronize()\<close>.\<close>

definition scan_stages :: "run \<Rightarrow> SparseGraph \<Rightarrow> nat \<Rightarrow> SparseGraph option" where
  "scan_stages r g n =
     do {
       let tmp_blk_sums = map (blk_sums_init r) [0..<num_blocks n];
       (g, tmp_blk_sums) \<leftarrow> prefix_sum (scan_order r) ((n + 1) mod 2 ^ 64) (g, tmp_blk_sums);
       tmp_blk_sums \<leftarrow>
         single_block_prefix_sum (smem_init r) (scratch_init r) tmp_blk_sums (num_blocks n);
       finish_prefix_sum (num_blocks n) tmp_blk_sums ((n + 1) mod 2 ^ 64) g
     }"

definition build_graph ::
  "run \<Rightarrow> SparseGraph \<Rightarrow> edge_t list \<Rightarrow> nat \<Rightarrow> nat \<Rightarrow> SparseGraph option" where
  "build_graph r g edge_list m n =
     do {
       g \<leftarrow> histogram (hist_order r) edge_list m g;
       g \<leftarrow> scan_stages r g n;
       let tmp_prefix_sums = map (prefix_sums_init r) [0..<n];
       tmp_prefix_sums \<leftarrow> create_scratch (num_blocks n) g tmp_prefix_sums;
       (g, tmp_prefix_sums) \<leftarrow> store (store_order r) edge_list (g, tmp_prefix_sums);
       Some g
     }"

subsection \<open>The notions of the specification\<close>

text \<open>
  The out-degree of vertex \<open>v\<close> and the destinations of the edges that leave \<open>v\<close>; the
  source of an edge is read as the kernels read it, as a \<^verbatim>\<open>std::size_t\<close>.
\<close>

definition out_degree :: "edge_t list \<Rightarrow> nat \<Rightarrow> nat" where
  "out_degree edge_list v = length (filter (\<lambda>e. to_size_t (edge_x e) = v) edge_list)"

definition destinations :: "edge_t list \<Rightarrow> nat \<Rightarrow> node_t list" where
  "destinations edge_list v = map edge_y (filter (\<lambda>e. to_size_t (edge_x e) = v) edge_list)"

text \<open>
  \<^verbatim>\<open>offsets[v]\<close> as a position of \<^verbatim>\<open>neighbours\<close>, and the sub-range
  \<^verbatim>\<open>neighbours[offsets[v] .. offsets[v+1])\<close>.
\<close>

definition offset :: "SparseGraph \<Rightarrow> nat \<Rightarrow> nat" where
  "offset g v = nat (sint (neighbours_start_at g ! v))"

definition segment :: "SparseGraph \<Rightarrow> nat \<Rightarrow> node_t list" where
  "segment g v = take (offset g (v + 1) - offset g v) (drop (offset g v) (neighbours g))"

text \<open>
  The number of edges whose source is below \<open>v\<close>: where the segment of \<open>v\<close> starts in a
  CSR array. \<open>processed\<close> lists the edges of the threads \<open>ts\<close> that have run, in their
  order (thread \<open>i\<close> works on edge \<open>i\<close> when \<open>i < m\<close>).
\<close>

definition edges_below :: "edge_t list \<Rightarrow> nat \<Rightarrow> nat" where
  "edges_below edge_list v = length (filter (\<lambda>e. to_size_t (edge_x e) < v) edge_list)"

definition processed :: "edge_t list \<Rightarrow> nat \<Rightarrow> nat list \<Rightarrow> edge_t list" where
  "processed edge_list m ts = map ((!) edge_list) (filter (\<lambda>i. i < m) ts)"

text \<open>
  The preconditions of \<^verbatim>\<open>build_graph\<close>: the graph's arrays and the edge list have the
  stated sizes, every source is a vertex index below \<open>n\<close>, the group totals fit the 6144
  cells of the cross-group scan (\<open>n + 1 \<le> 6144 * 1024\<close>), and the edge count fits the
  32-bit \<^verbatim>\<open>int\<close> that holds a position of \<^verbatim>\<open>neighbours\<close>. \<open>zero_on_entry\<close> says that the
  offsets array holds zeros when \<^verbatim>\<open>build_graph\<close> starts.
\<close>

definition stated_preconditions :: "SparseGraph \<Rightarrow> edge_t list \<Rightarrow> nat \<Rightarrow> nat \<Rightarrow> bool" where
  "stated_preconditions g edge_list m n \<longleftrightarrow>
     sg_n g = n \<and> sg_m g = m \<and>
     length (neighbours_start_at g) = n + 1 \<and> length (neighbours g) = m \<and>
     length edge_list = m \<and>
     list_all (\<lambda>e. to_size_t (edge_x e) < n) edge_list \<and>
     n < 6291456 \<and> m < 2 ^ 31"

definition zero_on_entry :: "SparseGraph \<Rightarrow> bool" where
  "zero_on_entry g \<longleftrightarrow> list_all (\<lambda>x. x = 0) (neighbours_start_at g)"

declare lanes.simps [simp del] lane_events.simps [simp del] stride_events.simps [simp del]
declare scan_loop.simps [simp del] stride_loop.simps [simp del]

section \<open>Properties\<close>

subsection \<open>Machine arithmetic\<close>

lemma ucast_scast_id: "(ucast (scast (a :: node_t) :: size_t) :: node_t) = a"
  by (rule bit_word_eqI) (auto simp add: bit_simps)

lemma ucast_add_down: "(ucast ((v :: size_t) + w) :: node_t) = ucast v + ucast w"
proof -
  have down: "is_down (ucast :: size_t \<Rightarrow> node_t)"
    by (simp add: is_down)
  have "(ucast (word_of_int (uint v + uint w) :: size_t) :: node_t) = word_of_int (uint v + uint w)"
    by (rule ucast_down_wi [OF down])
  moreover have "(word_of_int (uint v + uint w) :: size_t) = v + w"
    by (simp only: of_int_add word_of_int_uint)
  moreover have "(word_of_int (uint v + uint w) :: node_t) = ucast v + ucast w"
    by (simp only: of_int_add ucast_eq)
  ultimately show ?thesis by (simp only:)
qed

lemma add_size_t_scast: "add_size_t a (scast b) = a + b"
  by (simp add: add_size_t_def ucast_add_down ucast_scast_id)

lemma add_size_t_0: "add_size_t a 0 = a"
  by (simp add: add_size_t_def ucast_scast_id)

subsection \<open>The doubling-stride scan of one block\<close>

lemma window_double:
  fixes f :: "nat \<Rightarrow> 'a::comm_monoid_add"
  assumes "0 < s"
  shows "(\<Sum>j\<in>{Suc t - 2 * s..t}. f j) =
         (\<Sum>j\<in>{Suc t - s..t}. f j) + (if s \<le> t then (\<Sum>j\<in>{Suc (t - s) - s..t - s}. f j) else 0)"
proof (cases "s \<le> t")
  case True
  have "{Suc t - 2 * s..t} = {Suc (t - s) - s..t - s} \<union> {Suc t - s..t}"
    using True assms by auto
  moreover have "{Suc (t - s) - s..t - s} \<inter> {Suc t - s..t} = {}"
    using True assms by auto
  ultimately show ?thesis
    using True by (simp add: sum.union_disjoint add.commute)
next
  case False
  then have "Suc t - 2 * s = 0" "Suc t - s = 0" by simp_all
  with False show ?thesis by simp
qed

lemma scan_step_length: "length (scan_step stride smem) = 1024"
  by (simp add: scan_step_def Let_def)

lemma scan_step_nth:
  assumes "t < 1024"
  shows "scan_step stride smem ! t = smem ! t + (if stride \<le> t then smem ! (t - stride) else 0)"
  using assms by (simp add: scan_step_def Let_def add_size_t_scast)

lemma scan_loop_window:
  assumes "0 < s" "length smem = 1024"
    and "\<And>t. t < 1024 \<Longrightarrow> smem ! t = (\<Sum>j\<in>{Suc t - s..t}. f j)"
  shows "length (scan_loop s smem) = 1024 \<and>
         (\<forall>t<1024. scan_loop s smem ! t = (\<Sum>j\<le>t. f j))"
  using assms
proof (induction s smem rule: scan_loop.induct)
  case (1 stride smem)
  show ?case
  proof (cases "stride < 1024")
    case True
    have step: "scan_step stride smem ! t = (\<Sum>j\<in>{Suc t - 2 * stride..t}. f j)" if "t < 1024" for t
    proof -
      have "t - stride < 1024" using that by simp
      then show ?thesis
        using that "1.prems"(1) "1.prems"(3) [of t] "1.prems"(3) [of "t - stride"]
        by (simp add: scan_step_nth window_double)
    qed
    have "length (scan_loop (2 * stride) (scan_step stride smem)) = 1024 \<and>
          (\<forall>t<1024. scan_loop (2 * stride) (scan_step stride smem) ! t = (\<Sum>j\<le>t. f j))"
      using True "1.prems"(1) by (intro "1.IH") (simp_all add: scan_step_length step)
    then show ?thesis
      using True "1.prems"(1) by (subst (1 2) scan_loop.simps) simp
  next
    case False
    have "smem ! t = (\<Sum>j\<le>t. f j)" if "t < 1024" for t
    proof -
      have "Suc t - stride = 0" using that False by simp
      then show ?thesis using "1.prems"(3) [OF that] by (simp add: atMost_atLeast0)
    qed
    then show ?thesis
      using False "1.prems"(2) by (subst (1 2) scan_loop.simps) simp
  qed
qed

lemma scan_loop_1:
  assumes "length smem = 1024"
  shows "length (scan_loop 1 smem) = 1024"
    and "t < 1024 \<Longrightarrow> scan_loop 1 smem ! t = (\<Sum>j\<le>t. smem ! j)"
  using scan_loop_window [of 1 smem "\<lambda>j. smem ! j"] assms by simp_all

subsection \<open>Sequences of threads and array updates\<close>

lemma run_seq_append:
  "run_seq f (xs @ ys) s = (case run_seq f xs s of None \<Rightarrow> None | Some s' \<Rightarrow> run_seq f ys s')"
  by (induction xs arbitrary: s) (auto split: option.splits)

lemma run_seq_snoc:
  "run_seq f xs s = Some s' \<Longrightarrow> run_seq f (xs @ [x]) s = f x s'"
  by (simp add: run_seq_append split: option.splits)

lemma fold_upd_length [simp]: "length (fold (\<lambda>i a. a[h i := f i]) ts xs) = length xs"
  by (induction ts arbitrary: xs) auto

lemma fold_upd_nth_notin:
  "k \<notin> h ` set ts \<Longrightarrow> fold (\<lambda>i a. a[h i := f i]) ts xs ! k = xs ! k"
  by (induction ts arbitrary: xs) auto

lemma fold_upd_nth_in:
  assumes "k \<in> h ` set ts" "\<And>i. i \<in> set ts \<Longrightarrow> h i = k \<Longrightarrow> f i = v" "k < length xs"
  shows "fold (\<lambda>i a. a[h i := f i]) ts xs ! k = v"
  using assms
proof (induction ts arbitrary: xs rule: rev_induct)
  case Nil
  then show ?case by simp
next
  case (snoc x ts)
  show ?case
  proof (cases "h x = k")
    case True
    then show ?thesis using snoc.prems by simp
  next
    case False
    then have "k \<in> h ` set ts" using snoc.prems(1) by auto
    then have "fold (\<lambda>i a. a[h i := f i]) ts xs ! k = v"
      using snoc.prems by (intro snoc.IH) auto
    then show ?thesis using False by simp
  qed
qed

lemma fold_cond_length [simp]:
  "length (fold (\<lambda>i a. if P i then a[h i := G i (a ! h i)] else a) ts xs) = length xs"
  by (induction ts arbitrary: xs) auto

lemma fold_cond_nth_notin:
  "(\<And>i. i \<in> set ts \<Longrightarrow> P i \<Longrightarrow> h i \<noteq> k) \<Longrightarrow>
   fold (\<lambda>i a. if P i then a[h i := G i (a ! h i)] else a) ts xs ! k = xs ! k"
  by (induction ts arbitrary: xs) auto

lemma fold_cond_nth_in:
  assumes "distinct ts" "inj_on h (set ts)" "i \<in> set ts" "P i" "h i < length xs"
  shows "fold (\<lambda>i a. if P i then a[h i := G i (a ! h i)] else a) ts xs ! h i = G i (xs ! h i)"
  using assms
proof (induction ts arbitrary: xs rule: rev_induct)
  case Nil
  then show ?case by simp
next
  case (snoc x ts)
  let ?F = "\<lambda>i a. if P i then a[h i := G i (a ! h i)] else a"
  show ?case
  proof (cases "i = x")
    case True
    have "h j \<noteq> h x" if "j \<in> set ts" for j
      using that snoc.prems(1,2) by (auto simp: inj_on_def)
    then have "fold ?F ts xs ! h x = xs ! h x"
      by (intro fold_cond_nth_notin) auto
    then show ?thesis using True snoc.prems by simp
  next
    case False
    then have i: "i \<in> set ts" using snoc.prems(3) by simp
    have "fold ?F ts xs ! h i = G i (xs ! h i)"
      using snoc.prems i by (intro snoc.IH) (auto simp: inj_on_def)
    moreover have "h x \<noteq> h i"
      using i False snoc.prems(1,2) by (auto simp: inj_on_def)
    ultimately show ?thesis by simp
  qed
qed

lemma global_id_small: "b * 1024 + t < 2 ^ 32 \<Longrightarrow> global_id b t = b * 1024 + t"
  by (simp add: global_id_def)

lemma thread_gid_small: "i < 2 ^ 32 \<Longrightarrow> thread_gid i = i"
  by (simp add: thread_gid_def global_id_def)

subsection \<open>One block of \<^verbatim>\<open>prefix_sum\<close>\<close>

lemma sum_shift_block:
  fixes f :: "nat \<Rightarrow> 'a::comm_monoid_add"
  shows "(\<Sum>j\<le>t. f (a + j)) = (\<Sum>i\<in>{a..a + t}. f i)"
proof -
  have "(\<Sum>i\<in>{0 + a..t + a}. f i) = (\<Sum>j\<in>{0..t}. f (j + a))"
    by (rule sum.shift_bounds_cl_nat_ivl)
  then show ?thesis by (simp add: atMost_atLeast0 add.commute)
qed

lemma prefix_sum_block_eq:
  fixes g :: SparseGraph and bs :: "node_t list"
  defines "offs \<equiv> neighbours_start_at g"
  assumes N: "0 < N" "N \<le> 2 ^ 31" "N \<le> length offs"
    and b: "1024 * b < N" "b < length bs"
  shows "prefix_sum_block N b (g, bs) =
         Some (g\<lparr>neighbours_start_at :=
                   map (\<lambda>p. if p < N \<and> p div 1024 = b then (\<Sum>j\<in>{1024 * b..p}. offs ! j)
                            else offs ! p) [0..<length offs]\<rparr>,
               bs[b := (\<Sum>j\<in>{1024 * b..min (1024 * b + 1023) (N - 1)}. offs ! j)])"
proof -
  let ?loaded = "map (\<lambda>th_idx. neighbours_start_at g ! (global_id b th_idx mod N)) [0..<1024]"
  let ?smem = "scan_loop 1 ?loaded"
  let ?writers = "filter (\<lambda>th_idx. global_id b th_idx < N) [0..<1024]"
  let ?summers = "filter (\<lambda>th_idx. global_id b th_idx < N \<and>
      ((global_id b th_idx + 1) mod 1024 = 0 \<or> global_id b th_idx = N - 1)) [0..<1024]"
  let ?offs' = "fold (\<lambda>th_idx a. a[global_id b th_idx := ?smem ! th_idx]) ?writers
                  (neighbours_start_at g)"
  let ?bs' = "fold (\<lambda>th_idx c. c[b := ?smem ! th_idx]) ?summers bs"
  have gid: "global_id b t = 1024 * b + t" if "t < 1024" for t
    using that b(1) N(2) by (simp add: global_id_def)
  have chk1: "list_all (\<lambda>th_idx. global_id b th_idx mod N < length (neighbours_start_at g))
                [0..<1024]"
    using N by (auto simp: list_all_iff offs_def intro: less_le_trans [OF mod_less_divisor])
  have chk2: "list_all (\<lambda>th_idx. global_id b th_idx < length (neighbours_start_at g)) ?writers"
    using N by (auto simp: list_all_iff offs_def)
  have smem: "?smem ! t = (\<Sum>i\<in>{1024 * b..1024 * b + t}. offs ! i)"
    if "t < 1024" "1024 * b + t < N" for t
  proof -
    have "?smem ! t = (\<Sum>j\<le>t. ?loaded ! j)"
      using that by (intro scan_loop_1) simp_all
    also have "\<dots> = (\<Sum>j\<le>t. offs ! (1024 * b + j))"
      using that by (intro sum.cong) (auto simp: gid offs_def)
    finally show ?thesis by (simp add: sum_shift_block)
  qed
  have offs': "?offs' = map (\<lambda>p. if p < N \<and> p div 1024 = b then (\<Sum>j\<in>{1024 * b..p}. offs ! j)
                            else offs ! p) [0..<length offs]"
  proof (rule nth_equalityI)
    show "length ?offs' = length (map (\<lambda>p. if p < N \<and> p div 1024 = b
             then (\<Sum>j\<in>{1024 * b..p}. offs ! j) else offs ! p) [0..<length offs])"
      by (simp add: offs_def)
  next
    fix p assume "p < length ?offs'"
    then have p: "p < length offs" by (simp add: offs_def)
    show "?offs' ! p = map (\<lambda>p. if p < N \<and> p div 1024 = b
             then (\<Sum>j\<in>{1024 * b..p}. offs ! j) else offs ! p) [0..<length offs] ! p"
    proof (cases "p < N \<and> p div 1024 = b")
      case True
      then have t: "p mod 1024 < 1024" "1024 * b + p mod 1024 = p"
        using div_mult_mod_eq [of p 1024] by simp_all
      have "?offs' ! p = (\<Sum>i\<in>{1024 * b..p}. offs ! i)"
      proof (rule fold_upd_nth_in)
        have "global_id b (p mod 1024) = p"
          using t by (simp add: gid)
        moreover from this have "p mod 1024 \<in> set ?writers"
          using True by simp
        ultimately show "p \<in> global_id b ` set ?writers"
          by (metis image_eqI)
        show "p < length (neighbours_start_at g)" using p by (simp add: offs_def)
        fix i assume "i \<in> set ?writers" "global_id b i = p"
        then have "i < 1024" "1024 * b + i = p" by (auto simp: gid)
        then show "?smem ! i = (\<Sum>i\<in>{1024 * b..p}. offs ! i)"
          using smem [of i] True by auto
      qed
      then show ?thesis using True p by simp
    next
      case False
      have "p \<notin> global_id b ` set ?writers"
        using False by (auto simp: gid)
      then have "?offs' ! p = offs ! p"
        by (simp add: fold_upd_nth_notin offs_def)
      then show ?thesis using False p by auto
    qed
  qed
  define tl where "tl = min 1023 (N - 1 - 1024 * b)"
  have tl: "tl < 1024" "1024 * b + tl < N" "1024 * b + tl = min (1024 * b + 1023) (N - 1)"
    using b(1) by (auto simp: tl_def min_def)
  have summer_iff: "(global_id b t < N \<and>
      ((global_id b t + 1) mod 1024 = 0 \<or> global_id b t = N - 1)) \<longleftrightarrow> t = tl"
    if "t < 1024" for t
  proof -
    have "(1024 * b + t + 1) mod 1024 = (t + 1) mod 1024"
      by (metis add.assoc mod_mult_self4 mult.commute)
    moreover have "((t + 1) mod 1024 = 0) = (t = 1023)"
      using that by (cases "t = 1023") simp_all
    ultimately have e: "((global_id b t + 1) mod 1024 = 0) = (t = 1023)"
      by (simp only: gid [OF that])
    show ?thesis
      by (subst e, simp only: gid [OF that] tl_def, insert b(1) that, auto simp: min_def)
  qed
  have summers: "set ?summers = {tl}"
  proof (rule set_eqI)
    fix t
    have "t \<in> set ?summers \<longleftrightarrow> t < 1024 \<and> (global_id b t < N \<and>
      ((global_id b t + 1) mod 1024 = 0 \<or> global_id b t = N - 1))"
      by (simp only: set_filter mem_Collect_eq set_upt atLeastLessThan_iff le0 simp_thms)
    then have mem: "t \<in> set ?summers \<longleftrightarrow> t < 1024 \<and> t = tl"
      using summer_iff [of t] by (cases "t < 1024") (simp_all only: simp_thms)
    have "t < 1024 \<and> t = tl \<longleftrightarrow> t = tl"
      using tl(1) by (cases "t = tl") (simp_all only: simp_thms)
    with mem show "t \<in> set ?summers \<longleftrightarrow> t \<in> {tl}"
      by (simp only: singleton_iff)
  qed
  have bs': "?bs' = bs[b := (\<Sum>j\<in>{1024 * b..min (1024 * b + 1023) (N - 1)}. offs ! j)]"
  proof (rule nth_equalityI)
    show "length ?bs' = length (bs[b := (\<Sum>j\<in>{1024 * b..min (1024 * b + 1023) (N - 1)}. offs ! j)])"
      by simp
  next
    fix c assume "c < length ?bs'"
    then have c: "c < length bs" by simp
    show "?bs' ! c = bs[b := (\<Sum>j\<in>{1024 * b..min (1024 * b + 1023) (N - 1)}. offs ! j)] ! c"
    proof (cases "c = b")
      case True
      have "?bs' ! b = (\<Sum>j\<in>{1024 * b..min (1024 * b + 1023) (N - 1)}. offs ! j)"
      proof (rule fold_upd_nth_in)
        show "b \<in> (\<lambda>_. b) ` set ?summers" unfolding summers by simp
        show "b < length bs" by (rule b)
        fix i assume "i \<in> set ?summers"
        then have "i = tl" unfolding summers by simp
        then show "?smem ! i = (\<Sum>j\<in>{1024 * b..min (1024 * b + 1023) (N - 1)}. offs ! j)"
          using smem [of tl] tl by simp
      qed
      then show ?thesis using True c by simp
    next
      case False
      then have "c \<notin> (\<lambda>_. b) ` set ?summers" by auto
      then have "?bs' ! c = bs ! c" by (rule fold_upd_nth_notin)
      then show ?thesis using False by simp
    qed
  qed
  have N0: "(N = 0) = False" using N(1) by simp
  have "prefix_sum_block N b (g, bs) = Some (g\<lparr>neighbours_start_at := ?offs'\<rparr>, ?bs')"
    unfolding prefix_sum_block_def Let_def fst_conv snd_conv
    using chk1 chk2 b(2) N0 by (simp only: if_False if_True simp_thms not_less [symmetric])
  then show ?thesis by (simp only: offs' bs')
qed

subsection \<open>The kernel \<^verbatim>\<open>prefix_sum\<close>\<close>

lemma div_1024_in_block: "1024 * b \<le> j \<Longrightarrow> j < 1024 * b + 1024 \<Longrightarrow> j div 1024 = b" for b j :: nat
  by (simp add: div_nat_eqI mult.commute)

lemma prefix_sum_partial:
  fixes g :: SparseGraph and bs :: "node_t list"
  defines "offs \<equiv> neighbours_start_at g"
  assumes N: "0 < N" "N \<le> 2 ^ 31" "N \<le> length offs"
    and order: "distinct order" "\<And>b. b \<in> set order \<Longrightarrow> 1024 * b < N \<and> b < length bs"
  shows "prefix_sum order N (g, bs) =
         Some (g\<lparr>neighbours_start_at :=
                   map (\<lambda>p. if p < N \<and> p div 1024 \<in> set order
                            then (\<Sum>j\<in>{1024 * (p div 1024)..p}. offs ! j) else offs ! p)
                     [0..<length offs]\<rparr>,
               map (\<lambda>c. if c \<in> set order
                        then (\<Sum>j\<in>{1024 * c..min (1024 * c + 1023) (N - 1)}. offs ! j)
                        else bs ! c) [0..<length bs])"
  using order
proof (induction order rule: rev_induct)
  case Nil
  show ?case
    by (simp add: prefix_sum_def offs_def map_nth)
next
  case (snoc b order)
  let ?offs1 = "map (\<lambda>p. if p < N \<and> p div 1024 \<in> set order
                            then (\<Sum>j\<in>{1024 * (p div 1024)..p}. offs ! j) else offs ! p)
                     [0..<length offs]"
  let ?bs1 = "map (\<lambda>c. if c \<in> set order
                        then (\<Sum>j\<in>{1024 * c..min (1024 * c + 1023) (N - 1)}. offs ! j)
                        else bs ! c) [0..<length bs]"
  let ?g1 = "g\<lparr>neighbours_start_at := ?offs1\<rparr>"
  have b: "b \<notin> set order" "1024 * b < N" "b < length bs"
    using snoc.prems by auto
  have IH: "run_seq (prefix_sum_block N) order (g, bs) = Some (?g1, ?bs1)"
    using snoc.IH snoc.prems by (simp add: prefix_sum_def)
  have same: "?offs1 ! j = offs ! j" if "1024 * b \<le> j" "j < 1024 * b + 1024" "j < N" for j
    using that b(1) N(3) by (simp add: div_1024_in_block)
  have step: "prefix_sum_block N b (?g1, ?bs1) =
      Some (?g1\<lparr>neighbours_start_at :=
                   map (\<lambda>p. if p < N \<and> p div 1024 = b
                        then (\<Sum>j\<in>{1024 * b..p}. neighbours_start_at ?g1 ! j)
                        else neighbours_start_at ?g1 ! p) [0..<length (neighbours_start_at ?g1)]\<rparr>,
            ?bs1[b := (\<Sum>j\<in>{1024 * b..min (1024 * b + 1023) (N - 1)}. neighbours_start_at ?g1 ! j)])"
    using N b by (intro prefix_sum_block_eq) simp_all
  have offs2: "map (\<lambda>p. if p < N \<and> p div 1024 = b
                        then (\<Sum>j\<in>{1024 * b..p}. ?offs1 ! j)
                        else ?offs1 ! p) [0..<length ?offs1] =
        map (\<lambda>p. if p < N \<and> p div 1024 \<in> set (order @ [b])
                            then (\<Sum>j\<in>{1024 * (p div 1024)..p}. offs ! j) else offs ! p)
                     [0..<length offs]"
  proof (rule nth_equalityI)
    fix p assume "p < length (map (\<lambda>p. if p < N \<and> p div 1024 = b
                        then (\<Sum>j\<in>{1024 * b..p}. ?offs1 ! j)
                        else ?offs1 ! p) [0..<length ?offs1])"
    then have p: "p < length offs" by simp
    show "map (\<lambda>p. if p < N \<and> p div 1024 = b
                        then (\<Sum>j\<in>{1024 * b..p}. ?offs1 ! j)
                        else ?offs1 ! p) [0..<length ?offs1] ! p =
        map (\<lambda>p. if p < N \<and> p div 1024 \<in> set (order @ [b])
                            then (\<Sum>j\<in>{1024 * (p div 1024)..p}. offs ! j) else offs ! p)
                     [0..<length offs] ! p"
    proof (cases "p < N \<and> p div 1024 = b")
      case True
      then have pb: "p < 1024 * b + 1024"
        using div_mult_mod_eq [of p 1024] mod_less_divisor [of 1024 p] by linarith
      have "(\<Sum>j\<in>{1024 * b..p}. ?offs1 ! j) = (\<Sum>j\<in>{1024 * b..p}. offs ! j)"
      proof (rule sum.cong)
        fix j assume "j \<in> {1024 * b..p}"
        then show "?offs1 ! j = offs ! j"
          using True pb by (intro same) auto
      qed simp
      then show ?thesis using True p by simp
    next
      case False
      then show ?thesis using p by auto
    qed
  qed simp
  have bs2: "?bs1[b := (\<Sum>j\<in>{1024 * b..min (1024 * b + 1023) (N - 1)}. ?offs1 ! j)] =
      map (\<lambda>c. if c \<in> set (order @ [b])
                        then (\<Sum>j\<in>{1024 * c..min (1024 * c + 1023) (N - 1)}. offs ! j)
                        else bs ! c) [0..<length bs]"
  proof -
    have "(\<Sum>j\<in>{1024 * b..min (1024 * b + 1023) (N - 1)}. ?offs1 ! j) =
          (\<Sum>j\<in>{1024 * b..min (1024 * b + 1023) (N - 1)}. offs ! j)"
    proof (rule sum.cong)
      fix j assume "j \<in> {1024 * b..min (1024 * b + 1023) (N - 1)}"
      then show "?offs1 ! j = offs ! j"
        using N(1) by (intro same) auto
    qed simp
    then have eq: "?bs1[b := (\<Sum>j\<in>{1024 * b..min (1024 * b + 1023) (N - 1)}. ?offs1 ! j)] =
        ?bs1[b := (\<Sum>j\<in>{1024 * b..min (1024 * b + 1023) (N - 1)}. offs ! j)]"
      by (simp only:)
    show ?thesis
      unfolding eq
    proof (rule nth_equalityI)
      fix c assume "c < length (?bs1[b := (\<Sum>j\<in>{1024 * b..min (1024 * b + 1023) (N - 1)}. offs ! j)])"
      then have c: "c < length bs" by simp
      show "?bs1[b := (\<Sum>j\<in>{1024 * b..min (1024 * b + 1023) (N - 1)}. offs ! j)] ! c =
            map (\<lambda>c. if c \<in> set (order @ [b])
                        then (\<Sum>j\<in>{1024 * c..min (1024 * c + 1023) (N - 1)}. offs ! j)
                        else bs ! c) [0..<length bs] ! c"
      proof (cases "c = b")
        case True
        then show ?thesis using c by simp
      next
        case False
        then show ?thesis using c by simp
      qed
    qed simp
  qed
  have "prefix_sum (order @ [b]) N (g, bs) = prefix_sum_block N b (?g1, ?bs1)"
    unfolding prefix_sum_def by (rule run_seq_snoc [OF IH])
  also note step
  finally have "prefix_sum (order @ [b]) N (g, bs) =
      Some (?g1\<lparr>neighbours_start_at :=
                   map (\<lambda>p. if p < N \<and> p div 1024 = b
                        then (\<Sum>j\<in>{1024 * b..p}. neighbours_start_at ?g1 ! j)
                        else neighbours_start_at ?g1 ! p) [0..<length (neighbours_start_at ?g1)]\<rparr>,
            ?bs1[b := (\<Sum>j\<in>{1024 * b..min (1024 * b + 1023) (N - 1)}. neighbours_start_at ?g1 ! j)])" .
  moreover have sel: "neighbours_start_at ?g1 = ?offs1"
    by simp
  moreover have upd: "?g1\<lparr>neighbours_start_at := Z\<rparr> = g\<lparr>neighbours_start_at := Z\<rparr>" for Z
    by simp
  ultimately show ?case
    by (simp only: offs2 bs2)
qed

subsection \<open>The kernel \<^verbatim>\<open>single_block_prefix_sum\<close>\<close>

lemma lanes_bound: "i \<in> set (lanes d n) \<Longrightarrow> i < n"
proof (induction d n rule: lanes.induct)
  case (1 data_idx n)
  then show ?case
    by (subst (asm) (2) lanes.simps) (auto split: if_splits)
qed

lemma lanes_reach: "i < n \<Longrightarrow> 1024 * k \<le> i \<Longrightarrow> i \<in> set (lanes (i - 1024 * k) n)"
proof (induction k)
  case 0
  then show ?case by (subst lanes.simps) simp
next
  case (Suc k)
  then have "i \<in> set (lanes (i - 1024 * k) n)" by simp
  moreover have "i - 1024 * Suc k + 1024 = i - 1024 * k" "i - 1024 * Suc k < n"
    using Suc.prems by simp_all
  ultimately show ?case
    by (subst lanes.simps) simp
qed

lemma set_block_lanes: "set (block_lanes n) = {..<n}"
proof (rule set_eqI)
  fix i
  show "i \<in> set (block_lanes n) \<longleftrightarrow> i \<in> {..<n}"
  proof
    assume "i \<in> set (block_lanes n)"
    then show "i \<in> {..<n}"
      by (auto simp: block_lanes_def dest: lanes_bound)
  next
    assume "i \<in> {..<n}"
    then have "i \<in> set (lanes (i - 1024 * (i div 1024)) n)"
      by (intro lanes_reach) simp_all
    moreover have "i - 1024 * (i div 1024) = i mod 1024"
      by (simp add: minus_mult_div_eq_mod)
    ultimately have "i \<in> set (lanes (i mod 1024) n)" by simp
    moreover have "i mod 1024 < 1024" by simp
    ultimately show "i \<in> set (block_lanes n)"
      unfolding block_lanes_def set_concat by (auto intro!: bexI [of _ "i mod 1024"])
  qed
qed

lemma block_lanes_in_bounds:
  "list_all (\<lambda>data_idx. data_idx < length arr \<and> data_idx < 6144) (block_lanes n)
   \<longleftrightarrow> n \<le> length arr \<and> n \<le> 6144"
proof -
  have "list_all (\<lambda>data_idx. data_idx < length arr \<and> data_idx < 6144) (block_lanes n)
        \<longleftrightarrow> (\<forall>i<n. i < length arr \<and> i < 6144)"
    by (simp only: list_all_iff set_block_lanes Ball_def lessThan_iff)
  also have "\<dots> \<longleftrightarrow> n \<le> length arr \<and> n \<le> 6144"
    by (metis le_less_linear less_le_trans min_less_iff_conj nat_less_le)
  finally show ?thesis .
qed

lemma fold_copy_nth:
  assumes "k < length xs"
  shows "fold (\<lambda>data_idx a. a[data_idx := f data_idx]) (block_lanes n) xs ! k =
         (if k < n then f k else xs ! k)"
proof (cases "k < n")
  case True
  then show ?thesis
    using assms fold_upd_nth_in [where h = "\<lambda>i. i" and f = f and ts = "block_lanes n"
        and xs = xs and k = k and v = "f k"]
    by (simp add: set_block_lanes)
next
  case False
  then show ?thesis
    using fold_upd_nth_notin [where h = "\<lambda>i. i" and f = f and ts = "block_lanes n"
        and xs = xs and k = k]
    by (simp add: set_block_lanes)
qed

lemma fold_copy_length [simp]:
  "length (fold (\<lambda>data_idx a. a[data_idx := f data_idx]) (block_lanes n) xs) = length xs"
  using fold_upd_length [of "\<lambda>i. i" f "block_lanes n" xs] by simp

lemma lane_round_length [simp]: "length (lane_round stride n scratch iteration smem) = length smem"
  unfolding lane_round_def Let_def by (rule fold_cond_length)

lemma lane_round_nth:
  assumes "k < length smem"
  shows "lane_round stride n scratch iteration smem ! k =
         (if 1024 * iteration \<le> k \<and> k < 1024 * iteration + 1024 \<and> k < n \<and> stride \<le> k
          then smem ! k + scratch ! (k - stride) else smem ! k)"
proof (cases "1024 * iteration \<le> k \<and> k < 1024 * iteration + 1024 \<and> k < n \<and> stride \<le> k")
  case True
  define t where "t = k - 1024 * iteration"
  have t: "t < 1024" "t + 1024 * iteration = k"
    using True by (auto simp: t_def)
  let ?val = "map (\<lambda>th_id. if th_id + 1024 * iteration < n \<and> stride \<le> th_id + 1024 * iteration
                   then scast (scratch ! (th_id + 1024 * iteration - stride)) else (0 :: size_t))
                [0..<1024]"
  have "fold (\<lambda>th_id sm. if th_id + 1024 * iteration < n \<and> stride \<le> th_id + 1024 * iteration
            then sm[th_id + 1024 * iteration :=
                      add_size_t (sm ! (th_id + 1024 * iteration)) (?val ! th_id)]
            else sm) [0..<1024] smem ! (t + 1024 * iteration) =
        add_size_t (smem ! (t + 1024 * iteration)) (?val ! t)"
    using t True assms
    by (intro fold_cond_nth_in [where h = "\<lambda>th_id. th_id + 1024 * iteration"
          and P = "\<lambda>th_id. th_id + 1024 * iteration < n \<and> stride \<le> th_id + 1024 * iteration"
          and G = "\<lambda>th_id old. add_size_t old (?val ! th_id)"]) (auto simp: inj_on_def)
  moreover have "?val ! t = scast (scratch ! (k - stride))"
    using t True by simp
  ultimately show ?thesis
    using True t unfolding lane_round_def Let_def by (simp add: add_size_t_scast)
next
  case False
  have "fold (\<lambda>th_id sm. if th_id + 1024 * iteration < n \<and> stride \<le> th_id + 1024 * iteration
            then sm[th_id + 1024 * iteration :=
                      add_size_t (sm ! (th_id + 1024 * iteration)) (v ! th_id)]
            else sm) [0..<1024] smem ! k = smem ! k" for v :: "size_t list"
    using False
    by (intro fold_cond_nth_notin [where h = "\<lambda>th_id. th_id + 1024 * iteration"
          and P = "\<lambda>th_id. th_id + 1024 * iteration < n \<and> stride \<le> th_id + 1024 * iteration"
          and G = "\<lambda>th_id old. add_size_t old (v ! th_id)"]) auto
  then have "lane_round stride n scratch iteration smem ! k = smem ! k"
    unfolding lane_round_def Let_def .
  then show ?thesis
    by (simp only: False if_False)
qed

lemma lane_rounds_length [simp]:
  "length (fold (lane_round stride n scratch) [0..<j] smem) = length smem"
  by (induction j) simp_all

lemma lane_rounds_nth:
  assumes "k < length smem"
  shows "fold (lane_round stride n scratch) [0..<j] smem ! k =
         (if k < 1024 * j \<and> k < n \<and> stride \<le> k then smem ! k + scratch ! (k - stride)
          else smem ! k)"
  using assms
proof (induction j)
  case 0
  then show ?case by simp
next
  case (Suc j)
  then show ?case
    by (auto simp: lane_round_nth)
qed

lemma max_number_items_covers: "n \<le> 1024 * max_number_items n"
proof -
  have "n = 1024 * (n div 1024) + n mod 1024" by simp
  moreover have "n mod 1024 < 1024" by simp
  ultimately show ?thesis
    unfolding max_number_items_def by (cases "n mod 1024 = 0") auto
qed

lemma stride_step_length:
  "length (fst (stride_step stride n s)) = length (fst s)"
  "length (snd (stride_step stride n s)) = length (snd s)"
  by (simp_all add: stride_step_def Let_def)

lemma stride_step_nth:
  assumes "k < n" "n \<le> length (fst s)" "n \<le> length (snd s)"
  shows "fst (stride_step stride n s) ! k =
         fst s ! k + (if stride \<le> k then fst s ! (k - stride) else 0)"
proof -
  have "k < 1024 * max_number_items n"
    using assms(1) max_number_items_covers [of n] by simp
  moreover have "k - stride < length (snd s)" "k - stride < n" "k < length (fst s)"
    using assms by simp_all
  ultimately show ?thesis
    using assms(1) by (simp add: stride_step_def Let_def lane_rounds_nth fold_copy_nth)
qed

lemma stride_loop_window:
  assumes "0 < stride" "n \<le> length (fst s)" "n \<le> length (snd s)"
    and "\<And>k. k < n \<Longrightarrow> fst s ! k = (\<Sum>j\<in>{Suc k - stride..k}. f j)"
  shows "length (fst (stride_loop stride n s)) = length (fst s) \<and>
         (\<forall>k<n. fst (stride_loop stride n s) ! k = (\<Sum>j\<le>k. f j))"
  using assms
proof (induction stride n s rule: stride_loop.induct)
  case (1 stride n s)
  show ?case
  proof (cases "stride < n")
    case True
    have step: "fst (stride_step stride n s) ! k = (\<Sum>j\<in>{Suc k - 2 * stride..k}. f j)"
      if "k < n" for k
    proof -
      have "k - stride < n" using that by simp
      then show ?thesis
        using that "1.prems" (1,2,3) "1.prems"(4) [of k] "1.prems"(4) [of "k - stride"]
        by (simp add: stride_step_nth window_double)
    qed
    have "length (fst (stride_loop (2 * stride) n (stride_step stride n s))) =
            length (fst (stride_step stride n s)) \<and>
          (\<forall>k<n. fst (stride_loop (2 * stride) n (stride_step stride n s)) ! k = (\<Sum>j\<le>k. f j))"
      using True "1.prems"(1,2,3) by (intro "1.IH") (simp_all add: stride_step_length step)
    then show ?thesis
      using True "1.prems"(1) by (subst (1 2) stride_loop.simps) (simp add: stride_step_length)
  next
    case False
    have "fst s ! k = (\<Sum>j\<le>k. f j)" if "k < n" for k
    proof -
      have "Suc k - stride = 0" using that False by simp
      then show ?thesis using "1.prems"(4) [OF that] by (simp add: atMost_atLeast0)
    qed
    then show ?thesis
      using False by (subst (1 2) stride_loop.simps) simp
  qed
qed

lemma single_block_prefix_sum_eq:
  assumes "n \<le> length arr" "n \<le> 6144"
  shows "single_block_prefix_sum smem0 scratch0 arr n =
         Some (map (\<lambda>i. if i < n then (\<Sum>j\<le>i. arr ! j) else arr ! i) [0..<length arr])"
proof -
  let ?smem = "fold (\<lambda>data_idx sm. sm[data_idx := arr ! data_idx]) (block_lanes n)
                     (map smem0 [0..<6144])"
  let ?scratch = "fold (\<lambda>data_idx sc. sc[data_idx := arr ! data_idx]) (block_lanes n)
                        (map scratch0 [0..<6144])"
  define final where "final = fst (stride_loop 1 n (?smem, ?scratch))"
  have loaded: "fst (?smem, ?scratch) ! k = (\<Sum>j\<in>{Suc k - 1..k}. arr ! j)" if "k < n" for k
    using that assms(2) by (simp add: fold_copy_nth)
  have "length final = length (fst (?smem, ?scratch)) \<and> (\<forall>k<n. final ! k = (\<Sum>j\<le>k. arr ! j))"
    unfolding final_def using assms(2) loaded by (intro stride_loop_window) simp_all
  then have final: "final ! k = (\<Sum>j\<le>k. arr ! j)" if "k < n" for k
    using that by simp
  have "fold (\<lambda>data_idx a. a[data_idx := final ! data_idx]) (block_lanes n) arr =
        map (\<lambda>i. if i < n then (\<Sum>j\<le>i. arr ! j) else arr ! i) [0..<length arr]"
    by (rule nth_equalityI) (simp_all add: fold_copy_nth final)
  moreover have "list_all (\<lambda>data_idx. data_idx < length arr \<and> data_idx < 6144) (block_lanes n)"
    using assms by (simp add: block_lanes_in_bounds)
  ultimately show ?thesis
    unfolding single_block_prefix_sum_def Let_def final_def
    by (simp only: not_True_eq_False if_False)
qed

lemma single_block_prefix_sum_out_of_bounds:
  assumes "length arr < n \<or> 6144 < n"
  shows "single_block_prefix_sum smem0 scratch0 arr n = None"
proof -
  have "\<not> list_all (\<lambda>data_idx. data_idx < length arr \<and> data_idx < 6144) (block_lanes n)"
    using assms unfolding block_lanes_in_bounds by auto
  then show ?thesis
    unfolding single_block_prefix_sum_def by (simp only: simp_thms if_True)
qed

subsection \<open>The kernel \<^verbatim>\<open>finish_prefix_sum\<close>\<close>

lemma finish_prefix_sum_thread_eq:
  assumes "i < 2 ^ 32" "N \<le> length (neighbours_start_at g)" "N \<le> 1024 * length bs"
  shows "finish_prefix_sum_thread bs N (i div 1024) (i mod 1024) g =
         Some (g\<lparr>neighbours_start_at :=
                   (if i < N \<and> 0 < i div 1024
                    then (neighbours_start_at g)[i := neighbours_start_at g ! i + bs ! (i div 1024 - 1)]
                    else neighbours_start_at g)\<rparr>)"
proof -
  have gid: "global_id (i div 1024) (i mod 1024) = i"
    using assms(1) by (simp add: global_id_def)
  have "i div 1024 - 1 < length bs" if "i < N"
    using that assms(3) by (simp add: less_mult_imp_div_less mult.commute less_imp_diff_less)
  then show ?thesis
    using assms(2) by (auto simp: finish_prefix_sum_thread_def gid Let_def)
qed

lemma finish_prefix_sum_partial:
  fixes g :: SparseGraph
  defines "offs \<equiv> neighbours_start_at g"
  assumes "k \<le> 2 ^ 32" "N \<le> length offs" "N \<le> 1024 * length bs"
  shows "run_seq (\<lambda>i. finish_prefix_sum_thread bs N (i div 1024) (i mod 1024)) [0..<k] g =
         Some (g\<lparr>neighbours_start_at :=
                   map (\<lambda>p. if p < k \<and> p < N \<and> 0 < p div 1024
                            then offs ! p + bs ! (p div 1024 - 1) else offs ! p)
                     [0..<length offs]\<rparr>)"
  using assms(2)
proof (induction k)
  case 0
  show ?case by (simp add: offs_def map_nth)
next
  case (Suc k)
  let ?offs1 = "map (\<lambda>p. if p < k \<and> p < N \<and> 0 < p div 1024
                            then offs ! p + bs ! (p div 1024 - 1) else offs ! p)
                     [0..<length offs]"
  let ?g1 = "g\<lparr>neighbours_start_at := ?offs1\<rparr>"
  have IH: "run_seq (\<lambda>i. finish_prefix_sum_thread bs N (i div 1024) (i mod 1024)) [0..<k] g =
            Some ?g1"
    using Suc by simp
  have step: "finish_prefix_sum_thread bs N (k div 1024) (k mod 1024) ?g1 =
         Some (?g1\<lparr>neighbours_start_at :=
                   (if k < N \<and> 0 < k div 1024
                    then (neighbours_start_at ?g1)[k := neighbours_start_at ?g1 ! k + bs ! (k div 1024 - 1)]
                    else neighbours_start_at ?g1)\<rparr>)"
    using Suc.prems assms(3,4) by (intro finish_prefix_sum_thread_eq) simp_all
  have upd: "(if k < N \<and> 0 < k div 1024
                    then ?offs1[k := ?offs1 ! k + bs ! (k div 1024 - 1)]
                    else ?offs1) =
        map (\<lambda>p. if p < Suc k \<and> p < N \<and> 0 < p div 1024
                            then offs ! p + bs ! (p div 1024 - 1) else offs ! p)
                     [0..<length offs]"
  proof (rule nth_equalityI)
    fix p assume "p < length (if k < N \<and> 0 < k div 1024
                    then ?offs1[k := ?offs1 ! k + bs ! (k div 1024 - 1)]
                    else ?offs1)"
    then have p: "p < length offs" by (simp split: if_splits)
    have k: "k < length offs" if "k < N"
      using that assms(3) by simp
    show "(if k < N \<and> 0 < k div 1024
                    then ?offs1[k := ?offs1 ! k + bs ! (k div 1024 - 1)]
                    else ?offs1) ! p =
        map (\<lambda>p. if p < Suc k \<and> p < N \<and> 0 < p div 1024
                            then offs ! p + bs ! (p div 1024 - 1) else offs ! p)
                     [0..<length offs] ! p"
    proof (cases "p = k")
      case True
      then show ?thesis using p by simp
    next
      case False
      then have "p < Suc k \<longleftrightarrow> p < k" by auto
      then show ?thesis using p False by simp
    qed
  qed (simp split: if_splits)
  have "run_seq (\<lambda>i. finish_prefix_sum_thread bs N (i div 1024) (i mod 1024)) [0..<Suc k] g =
        finish_prefix_sum_thread bs N (k div 1024) (k mod 1024) ?g1"
    using run_seq_snoc [OF IH, of k] by simp
  also note step
  finally have "run_seq (\<lambda>i. finish_prefix_sum_thread bs N (i div 1024) (i mod 1024)) [0..<Suc k] g =
      Some (?g1\<lparr>neighbours_start_at :=
                   (if k < N \<and> 0 < k div 1024
                    then (neighbours_start_at ?g1)[k := neighbours_start_at ?g1 ! k + bs ! (k div 1024 - 1)]
                    else neighbours_start_at ?g1)\<rparr>)" .
  moreover have sel: "neighbours_start_at ?g1 = ?offs1"
    by simp
  moreover have "?g1\<lparr>neighbours_start_at := Z\<rparr> = g\<lparr>neighbours_start_at := Z\<rparr>" for Z
    by simp
  ultimately show ?case
    by (simp only: upd)
qed

lemma finish_prefix_sum_eq:
  fixes g :: SparseGraph
  defines "offs \<equiv> neighbours_start_at g"
  assumes "grid * 1024 \<le> 2 ^ 32" "N \<le> length offs" "N \<le> 1024 * length bs" "N \<le> grid * 1024"
  shows "finish_prefix_sum grid bs N g =
         Some (g\<lparr>neighbours_start_at :=
                   map (\<lambda>p. if p < N \<and> 0 < p div 1024
                            then offs ! p + bs ! (p div 1024 - 1) else offs ! p)
                     [0..<length offs]\<rparr>)"
proof -
  have "(p < grid * 1024 \<and> p < N \<and> 0 < p div 1024) = (p < N \<and> 0 < p div 1024)" for p
    using assms(5) by auto
  then show ?thesis
    unfolding finish_prefix_sum_def
    using finish_prefix_sum_partial [of "grid * 1024" N g bs] assms(2,3,4)
    by (simp add: offs_def)
qed

lemma sum_blocks:
  fixes f :: "nat \<Rightarrow> 'a::comm_monoid_add"
  shows "(\<Sum>d<b. \<Sum>j\<in>{1024 * d..1024 * d + 1023}. f j) = (\<Sum>j<1024 * b. f j)"
proof (induction b)
  case 0
  show ?case by simp
next
  case (Suc b)
  have "{..<1024 * Suc b} = {..<1024 * b} \<union> {1024 * b..1024 * b + 1023}"
    by auto
  moreover have "{..<1024 * b} \<inter> {1024 * b..1024 * b + 1023} = {}"
    by auto
  ultimately have "(\<Sum>j<1024 * Suc b. f j) =
      (\<Sum>j<1024 * b. f j) + (\<Sum>j\<in>{1024 * b..1024 * b + 1023}. f j)"
    by (simp only: sum.union_disjoint finite_lessThan finite_atLeastAtMost)
  then show ?case using Suc by simp
qed

lemma sum_split_block:
  fixes f :: "nat \<Rightarrow> 'a::comm_monoid_add"
  assumes "a \<le> p"
  shows "(\<Sum>j<a. f j) + (\<Sum>j\<in>{a..p}. f j) = (\<Sum>j\<le>p. f j)"
proof -
  have "{..p} = {..<a} \<union> {a..p}" "{..<a} \<inter> {a..p} = {}"
    using assms by auto
  then show ?thesis
    by (simp only: sum.union_disjoint finite_lessThan finite_atLeastAtMost)
qed

lemma num_blocks_small: "n < 2 ^ 32 \<Longrightarrow> num_blocks n = (n + 1024) div 1024"
  unfolding num_blocks_def by simp

lemma num_blocks_edges_small: "m < 2 ^ 32 \<Longrightarrow> num_blocks_edges m = (m + 1023) div 1024"
  unfolding num_blocks_edges_def by simp

subsection \<open>The three scan stages together\<close>

lemma valid_order_distinct: "valid_order k order \<Longrightarrow> distinct order"
  unfolding valid_order_def by (metis distinct_upt mset_eq_imp_distinct_iff)

lemma valid_order_set: "valid_order k order \<Longrightarrow> set order = {..<k}"
  unfolding valid_order_def by (metis atLeast_upt mset_eq_setD)

lemma scan_stages_eq:
  fixes g :: SparseGraph
  defines "offs \<equiv> neighbours_start_at g"
  assumes n: "n < 6291456" and len: "n + 1 \<le> length offs"
    and ord: "valid_order (num_blocks n) (scan_order r)"
  shows "scan_stages r g n =
         Some (g\<lparr>neighbours_start_at :=
                   map (\<lambda>p. if p \<le> n then (\<Sum>j\<le>p. offs ! j) else offs ! p)
                     [0..<length offs]\<rparr>)"
proof -
  define nb where "nb = num_blocks n"
  have nb: "nb = (n + 1024) div 1024"
    unfolding nb_def using n by (intro num_blocks_small) simp
  have nb_bounds: "n + 1 \<le> 1024 * nb" "nb \<le> 6144" "nb * 1024 \<le> 2 ^ 32"
    using n unfolding nb by simp_all
  have blk: "1024 * b < n + 1" if "b < nb" for b
    using that unfolding nb by simp
  have blk_of: "p div 1024 < nb" if "p \<le> n" for p
    using that unfolding nb by simp
  have N: "(n + 1) mod 2 ^ 64 = n + 1"
    using n by simp
  have dist: "distinct (scan_order r)" and set_ord: "set (scan_order r) = {..<nb}"
    using ord valid_order_distinct valid_order_set unfolding nb_def by blast+
  define bs0 where "bs0 = map (blk_sums_init r) [0..<nb]"
  define offs1 where "offs1 = map (\<lambda>p. if p < n + 1 \<and> p div 1024 \<in> set (scan_order r)
                            then (\<Sum>j\<in>{1024 * (p div 1024)..p}. offs ! j) else offs ! p)
                     [0..<length offs]"
  define bs1 where "bs1 = map (\<lambda>c. if c \<in> set (scan_order r)
                        then (\<Sum>j\<in>{1024 * c..min (1024 * c + 1023) (n + 1 - 1)}. offs ! j)
                        else bs0 ! c) [0..<length bs0]"
  define bs2 where "bs2 = map (\<lambda>i. if i < nb then (\<Sum>j\<le>i. bs1 ! j) else bs1 ! i) [0..<length bs1]"
  define offs3 where "offs3 = map (\<lambda>p. if p < n + 1 \<and> 0 < p div 1024
                            then offs1 ! p + bs2 ! (p div 1024 - 1) else offs1 ! p)
                     [0..<length offs1]"
  have lens: "length bs0 = nb" "length bs1 = nb" "length bs2 = nb" "length offs1 = length offs"
    by (simp_all add: bs0_def bs1_def bs2_def offs1_def)
  have k1: "prefix_sum (scan_order r) (n + 1) (g, bs0) = Some (g\<lparr>neighbours_start_at := offs1\<rparr>, bs1)"
    unfolding offs1_def bs1_def offs_def
    using n len dist set_ord blk lens(1) by (intro prefix_sum_partial) (simp_all add: offs_def)
  have k2: "single_block_prefix_sum (smem_init r) (scratch_init r) bs1 nb = Some bs2"
    unfolding bs2_def using nb_bounds lens by (intro single_block_prefix_sum_eq) simp_all
  have "finish_prefix_sum nb bs2 (n + 1) (g\<lparr>neighbours_start_at := offs1\<rparr>) =
        Some (g\<lparr>neighbours_start_at := offs1\<rparr>\<lparr>neighbours_start_at :=
                   map (\<lambda>p. if p < n + 1 \<and> 0 < p div 1024
                            then neighbours_start_at (g\<lparr>neighbours_start_at := offs1\<rparr>) ! p
                                 + bs2 ! (p div 1024 - 1)
                            else neighbours_start_at (g\<lparr>neighbours_start_at := offs1\<rparr>) ! p)
                     [0..<length (neighbours_start_at (g\<lparr>neighbours_start_at := offs1\<rparr>))]\<rparr>)"
    using nb_bounds len lens by (intro finish_prefix_sum_eq) (simp_all add: mult.commute)
  then have k3: "finish_prefix_sum nb bs2 (n + 1) (g\<lparr>neighbours_start_at := offs1\<rparr>) =
        Some (g\<lparr>neighbours_start_at := offs3\<rparr>)"
    by (simp add: offs3_def)
  have run: "scan_stages r g n = Some (g\<lparr>neighbours_start_at := offs3\<rparr>)"
    unfolding scan_stages_def Let_def N nb_def [symmetric] bs0_def [symmetric]
    by (simp only: k1 k2 k3 Option.bind.simps prod.case)
  have blocks: "bs1 ! d = (\<Sum>j\<in>{1024 * d..1024 * d + 1023}. offs ! j)"
    if "d < b" "b = p div 1024" "p \<le> n" for d b p
  proof -
    have "1024 * b \<le> p" using that(2) by simp
    then have "1024 * d + 1023 < p" using that(1) by simp
    then have "min (1024 * d + 1023) (n + 1 - 1) = 1024 * d + 1023"
      using that(3) by simp
    moreover have "d < nb" using that blk_of [of p] by simp
    ultimately show ?thesis
      unfolding bs1_def using set_ord lens(1) by simp
  qed
  have "offs3 = map (\<lambda>p. if p \<le> n then (\<Sum>j\<le>p. offs ! j) else offs ! p) [0..<length offs]"
  proof (rule nth_equalityI)
    show "length offs3 = length (map (\<lambda>p. if p \<le> n then (\<Sum>j\<le>p. offs ! j) else offs ! p)
                                    [0..<length offs])"
      by (simp add: offs3_def lens)
  next
    fix p assume "p < length offs3"
    then have p: "p < length offs" by (simp add: offs3_def lens)
    show "offs3 ! p = map (\<lambda>p. if p \<le> n then (\<Sum>j\<le>p. offs ! j) else offs ! p)
                        [0..<length offs] ! p"
    proof (cases "p \<le> n")
      case False
      then show ?thesis using p by (simp add: offs3_def offs1_def)
    next
      case True
      define b where "b = p div 1024"
      have b: "b < nb" "1024 * b \<le> p"
        using True blk_of [of p] by (simp_all add: b_def)
      have o1: "offs1 ! p = (\<Sum>j\<in>{1024 * b..p}. offs ! j)"
        using True p b(1) set_ord by (simp add: offs1_def b_def)
      show ?thesis
      proof (cases "0 < b")
        case False
        then have "offs3 ! p = (\<Sum>j\<in>{0..p}. offs ! j)"
          using o1 p True by (simp add: offs3_def lens b_def)
        then show ?thesis using True p by (simp add: atMost_atLeast0)
      next
        case pos: True
        have "b - 1 < nb" using b(1) by simp
        then have "bs2 ! (b - 1) = (\<Sum>d\<le>b - 1. bs1 ! d)"
          by (simp add: bs2_def lens)
        also have "{..b - 1} = {..<b}"
          using pos by auto
        also have "(\<Sum>d<b. bs1 ! d) = (\<Sum>d<b. \<Sum>j\<in>{1024 * d..1024 * d + 1023}. offs ! j)"
          using True by (intro sum.cong) (auto simp: blocks [where p = p] b_def)
        also have "\<dots> = (\<Sum>j<1024 * b. offs ! j)"
          by (rule sum_blocks)
        finally have "bs2 ! (b - 1) = (\<Sum>j<1024 * b. offs ! j)" .
        then have "offs3 ! p = (\<Sum>j<1024 * b. offs ! j) + (\<Sum>j\<in>{1024 * b..p}. offs ! j)"
          using o1 p True pos by (simp add: offs3_def lens b_def add.commute)
        then show ?thesis
          using True p b(2) by (simp add: sum_split_block)
      qed
    qed
  qed
  with run show ?thesis by simp
qed

subsection \<open>The prefix sum over one group and over many groups\<close>

lemma valid_order_upt: "valid_order k [0..<k]"
  by (simp add: valid_order_def)

lemma valid_order_rev: "valid_order k (rev [0..<k])"
  by (simp add: valid_order_def)

text \<open>
  Claim C10. For every initial offsets array of length \<open>n + 1 \<le> 1024\<close> the block scan
  has one group, and after \<^verbatim>\<open>prefix_sum\<close> position \<open>p \<le> n\<close> of the array holds the sum
  of the initial values at positions \<open>0 .. p\<close> (formed in the 32-bit element type).
  The load \<^verbatim>\<open>neighbours_start_at[global_th_idx % n]\<close> puts element \<open>th_idx\<close> at shared
  position \<open>th_idx\<close> exactly for \<open>th_idx \<le> n\<close>, so the wrapped duplicates sit at positions
  above \<open>n\<close> only.
\<close>

theorem prefix_sum_one_group:
  assumes "length (neighbours_start_at g) = n + 1" "n + 1 \<le> 1024" "0 < length block_sums"
    and "valid_order (num_blocks n) order"
  shows "num_blocks n = 1 \<and>
         (\<forall>th_idx<1024. (global_id 0 th_idx mod (n + 1) = th_idx) = (th_idx \<le> n)) \<and>
         (\<exists>g' block_sums'. prefix_sum order (n + 1) (g, block_sums) = Some (g', block_sums') \<and>
            length (neighbours_start_at g') = n + 1 \<and>
            (\<forall>p\<le>n. neighbours_start_at g' ! p = (\<Sum>j\<le>p. neighbours_start_at g ! j)))"
proof -
  have nb: "num_blocks n = 1"
    using assms(2) by (simp add: num_blocks_def)
  have load: "(global_id 0 t mod (n + 1) = t) = (t \<le> n)" if "t < 1024" for t
  proof -
    have "global_id 0 t = t" using that by (simp add: global_id_def)
    moreover have "(t mod (n + 1) = t) = (t < n + 1)"
      by (metis mod_less mod_less_divisor zero_less_Suc Suc_eq_plus1)
    ultimately show ?thesis by auto
  qed
  have ord: "distinct order" "set order = {..<1}"
    using assms(4) valid_order_distinct valid_order_set unfolding nb by blast+
  let ?offs = "neighbours_start_at g"
  have run: "prefix_sum order (n + 1) (g, block_sums) =
         Some (g\<lparr>neighbours_start_at :=
                   map (\<lambda>p. if p < n + 1 \<and> p div 1024 \<in> set order
                            then (\<Sum>j\<in>{1024 * (p div 1024)..p}. ?offs ! j) else ?offs ! p)
                     [0..<length ?offs]\<rparr>,
               map (\<lambda>c. if c \<in> set order
                        then (\<Sum>j\<in>{1024 * c..min (1024 * c + 1023) (n + 1 - 1)}. ?offs ! j)
                        else block_sums ! c) [0..<length block_sums])"
    using assms(1,2,3) ord by (intro prefix_sum_partial) auto
  define offs' where "offs' = map (\<lambda>p. if p < n + 1 \<and> p div 1024 \<in> set order
                            then (\<Sum>j\<in>{1024 * (p div 1024)..p}. ?offs ! j) else ?offs ! p)
                     [0..<length ?offs]"
  have len: "length offs' = n + 1"
    by (simp add: offs'_def assms(1))
  have val: "offs' ! p = (\<Sum>j\<le>p. ?offs ! j)" if "p \<le> n" for p
  proof -
    have "p div 1024 = 0" "p < length ?offs"
      using that assms(1,2) by simp_all
    then show ?thesis
      using that ord by (simp add: offs'_def atMost_atLeast0 del: upt_Suc)
  qed
  have "\<exists>g' block_sums'. prefix_sum order (n + 1) (g, block_sums) = Some (g', block_sums') \<and>
            length (neighbours_start_at g') = n + 1 \<and>
            (\<forall>p\<le>n. neighbours_start_at g' ! p = (\<Sum>j\<le>p. neighbours_start_at g ! j))"
    unfolding run offs'_def [symmetric]
    by (intro exI [of _ "g\<lparr>neighbours_start_at := offs'\<rparr>"] exI conjI refl) (simp_all add: len val)
  with nb load show ?thesis by blast
qed

text \<open>
  Claim C4. When the offsets array spans more than one group (\<open>n + 1 > 1024\<close>, and at
  most 6144 groups), the three scan stages \<^verbatim>\<open>prefix_sum\<close>, \<^verbatim>\<open>single_block_prefix_sum\<close>
  and \<^verbatim>\<open>finish_prefix_sum\<close> leave at every position \<open>p \<le> n\<close> the sum of the values that
  the array held at positions \<open>0 .. p\<close> before the scan, for every order of the blocks and
  all contents of the fresh buffers.
\<close>

theorem two_level_scan_correct:
  assumes "1024 \<le> n" "n < 6291456" "length (neighbours_start_at g) = n + 1"
    and "valid_order (num_blocks n) (scan_order r)"
  shows "1 < num_blocks n \<and>
         (\<exists>g'. scan_stages r g n = Some g' \<and>
            length (neighbours_start_at g') = n + 1 \<and>
            (\<forall>p\<le>n. neighbours_start_at g' ! p = (\<Sum>j\<le>p. neighbours_start_at g ! j)))"
proof -
  have "num_blocks n = (n + 1024) div 1024"
    using assms(2) by (intro num_blocks_small) simp
  then have "1 < num_blocks n"
    using assms(1) by simp
  moreover define offs' where "offs' = map (\<lambda>p. if p \<le> n then (\<Sum>j\<le>p. neighbours_start_at g ! j)
                            else neighbours_start_at g ! p)
                     [0..<length (neighbours_start_at g)]"
  have run: "scan_stages r g n = Some (g\<lparr>neighbours_start_at := offs'\<rparr>)"
    unfolding offs'_def using assms by (intro scan_stages_eq) simp_all
  have len: "length offs' = n + 1"
    by (simp add: offs'_def assms(3))
  have val: "offs' ! p = (\<Sum>j\<le>p. neighbours_start_at g ! j)" if "p \<le> n" for p
    using that assms(3) by (simp add: offs'_def del: upt_Suc)
  have "\<exists>g'. scan_stages r g n = Some g' \<and>
            length (neighbours_start_at g') = n + 1 \<and>
            (\<forall>p\<le>n. neighbours_start_at g' ! p = (\<Sum>j\<le>p. neighbours_start_at g ! j))"
    unfolding run
    by (intro exI [of _ "g\<lparr>neighbours_start_at := offs'\<rparr>"] conjI refl) (simp_all add: len val)
  ultimately show ?thesis by blast
qed


theorem prefix_sum_one_group_witness:
  "length (neighbours_start_at \<lparr>sg_n = 2, sg_m = 3, neighbours_start_at = [0, 2, 1],
       neighbours = [0, 0, 0]\<rparr>) = 2 + 1 \<and> (2::nat) + 1 \<le> 1024 \<and>
   0 < length [0 :: node_t] \<and> valid_order (num_blocks 2) [0] \<and>
   num_blocks 2 = 1 \<and>
   (global_id 0 7 mod (2 + 1) = 7) = ((7::nat) \<le> 2) \<and>
   (\<exists>g' block_sums'.
      prefix_sum [0] (2 + 1) (\<lparr>sg_n = 2, sg_m = 3, neighbours_start_at = [0, 2, 1],
        neighbours = [0, 0, 0]\<rparr>, [0]) = Some (g', block_sums') \<and>
      length (neighbours_start_at g') = 2 + 1 \<and>
      (\<forall>p\<le>2. neighbours_start_at g' ! p =
         (\<Sum>j\<le>p. neighbours_start_at \<lparr>sg_n = 2, sg_m = 3, neighbours_start_at = [0, 2, 1],
            neighbours = [0, 0, 0]\<rparr> ! j)))"
  using prefix_sum_one_group [of "\<lparr>sg_n = 2, sg_m = 3, neighbours_start_at = [0, 2, 1],
       neighbours = [0, 0, 0]\<rparr>" 2 "[0]" "[0]"]
  by (simp add: valid_order_def num_blocks_def global_id_def)

theorem two_level_scan_correct_witness:
  "(1024::nat) \<le> 1024 \<and> (1024::nat) < 6291456 \<and>
   length (neighbours_start_at \<lparr>sg_n = 1024, sg_m = 1025,
       neighbours_start_at = replicate 1025 1, neighbours = []\<rparr>) = 1024 + 1 \<and>
   valid_order (num_blocks 1024) (scan_order \<lparr>hist_order = [], scan_order = rev [0..<2],
       store_order = [], blk_sums_init = (\<lambda>_. 7), prefix_sums_init = (\<lambda>_. 7),
       smem_init = (\<lambda>_. 7), scratch_init = (\<lambda>_. 7)\<rparr>) \<and>
   1 < num_blocks 1024 \<and>
   (\<exists>g'. scan_stages \<lparr>hist_order = [], scan_order = rev [0..<2],
       store_order = [], blk_sums_init = (\<lambda>_. 7), prefix_sums_init = (\<lambda>_. 7),
       smem_init = (\<lambda>_. 7), scratch_init = (\<lambda>_. 7)\<rparr>
       \<lparr>sg_n = 1024, sg_m = 1025, neighbours_start_at = replicate 1025 1, neighbours = []\<rparr>
       1024 = Some g' \<and>
      length (neighbours_start_at g') = 1024 + 1 \<and>
      (\<forall>p\<le>1024. neighbours_start_at g' ! p =
         (\<Sum>j\<le>p. neighbours_start_at \<lparr>sg_n = 1024, sg_m = 1025,
            neighbours_start_at = replicate 1025 1, neighbours = []\<rparr> ! j)))"
  using two_level_scan_correct [of 1024 "\<lparr>sg_n = 1024, sg_m = 1025,
       neighbours_start_at = replicate 1025 1, neighbours = []\<rparr>"
     "\<lparr>hist_order = [], scan_order = rev [0..<2],
       store_order = [], blk_sums_init = (\<lambda>_. 7), prefix_sums_init = (\<lambda>_. 7),
       smem_init = (\<lambda>_. 7), scratch_init = (\<lambda>_. 7)\<rparr>"]
  by (simp add: valid_order_rev num_blocks_def)

subsection \<open>The kernel \<^verbatim>\<open>histogram\<close>\<close>

lemma sint_of_nat_small:
  assumes "k < 2 ^ 31"
  shows "sint (of_nat k :: node_t) = int k"
proof -
  have "sint (of_nat k :: node_t) = signed_take_bit 31 (int k)"
    by (simp add: signed_of_nat)
  also have "\<dots> = int k"
    using assms by (intro signed_take_bit_int_eq_self) simp_all
  finally show ?thesis .
qed

lemma to_size_t_small:
  assumes "to_size_t v < k" "k \<le> 2 ^ 31"
  shows "0 \<le> sint v" and "nat (sint v) = to_size_t v"
proof -
  have lo: "- (2 ^ 31) \<le> sint v" and hi: "sint v < 2 ^ 31"
    using sint_ge [of v] sint_lt [of v] by simp_all
  show nonneg: "0 \<le> sint v"
  proof (rule ccontr)
    assume "\<not> 0 \<le> sint v"
    then have neg: "sint v < 0" by simp
    have "sint v mod 2 ^ 64 = (sint v + 2 ^ 64) mod 2 ^ 64"
      by simp
    also have "\<dots> = sint v + 2 ^ 64"
      using lo neg by (intro mod_pos_pos_trivial) simp_all
    finally have "to_size_t v = nat (sint v + 2 ^ 64)"
      by (simp add: to_size_t_def)
    then have "2 ^ 31 \<le> to_size_t v"
      using lo by simp
    then show False using assms by simp
  qed
  have "sint v mod 2 ^ 64 = sint v"
    using nonneg hi by (intro mod_pos_pos_trivial) simp_all
  then show "nat (sint v) = to_size_t v"
    by (simp add: to_size_t_def)
qed

lemma to_size_t_of_nat: "k < 2 ^ 31 \<Longrightarrow> to_size_t (of_nat k) = k"
  by (simp add: to_size_t_def sint_of_nat_small)

lemma histogram_thread_eq:
  assumes "i < sg_m g \<longrightarrow> i < length arr" "sg_n g < length (neighbours_start_at g)"
    "sg_n g \<le> 2 ^ 31"
  shows "histogram_thread arr m i g =
         Some (g\<lparr>neighbours_start_at :=
           (if i < sg_m g \<and> to_size_t (edge_x (arr ! i)) < sg_n g
            then (neighbours_start_at g)[to_size_t (edge_x (arr ! i)) + 1 :=
                   neighbours_start_at g ! (to_size_t (edge_x (arr ! i)) + 1) + 1]
            else neighbours_start_at g)\<rparr>)"
proof (cases "i < sg_m g \<and> to_size_t (edge_x (arr ! i)) < sg_n g")
  case True
  let ?v = "edge_x (arr ! i)"
  have v: "0 \<le> sint ?v" "nat (sint ?v) = to_size_t ?v"
    using True assms(3) to_size_t_small [of ?v "sg_n g"] by simp_all
  then have idx: "nat (sint ?v + 1) = to_size_t ?v + 1" "0 \<le> sint ?v + 1"
    by simp_all
  have "atomicAdd (neighbours_start_at g) (sint ?v + 1) 1 =
        Some (neighbours_start_at g ! (to_size_t ?v + 1),
              (neighbours_start_at g)[to_size_t ?v + 1 :=
                 neighbours_start_at g ! (to_size_t ?v + 1) + 1])"
    unfolding atomicAdd_def idx using True assms(2) idx(2) by simp
  then show ?thesis
    using True assms(1) by (simp add: histogram_thread_def Let_def)
next
  case False
  then show ?thesis
    using assms(1) by (auto simp: histogram_thread_def Let_def)
qed

lemma upd_count_step:
  fixes offs :: "node_t list"
  assumes "length offs = L"
  shows "(if c then (map (\<lambda>p. offs ! p + of_nat (length (filter (Q p) ts))) [0..<L])
            [a := map (\<lambda>p. offs ! p + of_nat (length (filter (Q p) ts))) [0..<L] ! a + 1]
          else map (\<lambda>p. offs ! p + of_nat (length (filter (Q p) ts))) [0..<L]) =
         map (\<lambda>p. offs ! p + of_nat (length (filter (Q p) ts)) + (if c \<and> p = a then 1 else 0))
           [0..<L]"
  by (rule nth_equalityI) (auto simp: nth_list_update)

lemma histogram_partial:
  fixes g :: SparseGraph
  defines "offs \<equiv> neighbours_start_at g"
  assumes g: "sg_m g \<le> length arr" "sg_n g < length offs" "sg_n g \<le> 2 ^ 31"
    and ts: "\<And>i. i \<in> set ts \<Longrightarrow> i < 2 ^ 32"
  shows "histogram ts arr m g =
         Some (g\<lparr>neighbours_start_at :=
           map (\<lambda>p. offs ! p + of_nat (length (filter
                  (\<lambda>i. i < sg_m g \<and> to_size_t (edge_x (arr ! i)) < sg_n g \<and>
                       to_size_t (edge_x (arr ! i)) + 1 = p) ts)))
             [0..<length offs]\<rparr>)"
  using ts
proof (induction ts rule: rev_induct)
  case Nil
  show ?case by (simp add: histogram_def offs_def map_nth)
next
  case (snoc i ts)
  let ?Q = "\<lambda>p i. i < sg_m g \<and> to_size_t (edge_x (arr ! i)) < sg_n g \<and>
                       to_size_t (edge_x (arr ! i)) + 1 = p"
  let ?offs1 = "map (\<lambda>p. offs ! p + of_nat (length (filter (?Q p) ts))) [0..<length offs]"
  let ?g1 = "g\<lparr>neighbours_start_at := ?offs1\<rparr>"
  have gid: "thread_gid i = i"
    using snoc.prems by (intro thread_gid_small) simp
  have IH: "run_seq (\<lambda>i. histogram_thread arr m (thread_gid i)) ts g = Some ?g1"
    using snoc by (simp add: histogram_def)
  have "histogram_thread arr m i ?g1 =
         Some (?g1\<lparr>neighbours_start_at :=
           (if i < sg_m ?g1 \<and> to_size_t (edge_x (arr ! i)) < sg_n ?g1
            then (neighbours_start_at ?g1)[to_size_t (edge_x (arr ! i)) + 1 :=
                   neighbours_start_at ?g1 ! (to_size_t (edge_x (arr ! i)) + 1) + 1]
            else neighbours_start_at ?g1)\<rparr>)"
    using g by (intro histogram_thread_eq) simp_all
  then have step: "histogram_thread arr m i ?g1 =
         Some (g\<lparr>neighbours_start_at :=
           (if i < sg_m g \<and> to_size_t (edge_x (arr ! i)) < sg_n g
            then ?offs1[to_size_t (edge_x (arr ! i)) + 1 :=
                   ?offs1 ! (to_size_t (edge_x (arr ! i)) + 1) + 1]
            else ?offs1)\<rparr>)"
    by simp
  have "histogram (ts @ [i]) arr m g = histogram_thread arr m i ?g1"
    unfolding histogram_def using run_seq_snoc [OF IH, of i] gid by simp
  also note step
  also have "(if i < sg_m g \<and> to_size_t (edge_x (arr ! i)) < sg_n g
            then ?offs1[to_size_t (edge_x (arr ! i)) + 1 :=
                   ?offs1 ! (to_size_t (edge_x (arr ! i)) + 1) + 1]
            else ?offs1) =
        map (\<lambda>p. offs ! p + of_nat (length (filter (?Q p) ts)) +
              (if (i < sg_m g \<and> to_size_t (edge_x (arr ! i)) < sg_n g) \<and>
                  p = to_size_t (edge_x (arr ! i)) + 1 then 1 else 0)) [0..<length offs]"
    by (rule upd_count_step) simp
  also have "\<dots> = map (\<lambda>p. offs ! p + of_nat (length (filter (?Q p) (ts @ [i])))) [0..<length offs]"
    by (rule map_cong) auto
  finally show ?case .
qed

subsection \<open>Orders of a grid and the edge list\<close>

lemma filter_upt_below: "m \<le> K \<Longrightarrow> filter (\<lambda>i. i < m) [0..<K] = [0..<m]"
proof -
  assume "m \<le> K"
  then have "[0..<K] = [0..<m] @ [m..<K]"
    by (metis le_add_diff_inverse upt_add_eq_append zero_le)
  moreover have "filter (\<lambda>i. i < m) [0..<m] = [0..<m]" "filter (\<lambda>i. i < m) [m..<K] = []"
    by (simp_all add: filter_empty_conv)
  ultimately show ?thesis by simp
qed

lemma mset_edges_of_order:
  assumes "valid_order K order" "m \<le> K" "length xs = m"
  shows "mset (map ((!) xs) (filter (\<lambda>i. i < m) order)) = mset xs"
proof -
  have "mset (filter (\<lambda>i. i < m) order) = mset (filter (\<lambda>i. i < m) [0..<K])"
    using assms(1) by (simp only: valid_order_def mset_filter)
  then have "mset (filter (\<lambda>i. i < m) order) = mset [0..<m]"
    using assms(2) by (simp only: filter_upt_below)
  then have "mset (map ((!) xs) (filter (\<lambda>i. i < m) order)) = mset (map ((!) xs) [0..<m])"
    by (metis mset_map)
  moreover have "map ((!) xs) [0..<m] = xs"
    using assms(3) map_nth [of xs] by simp
  ultimately show ?thesis
    by (simp only:)
qed

lemma count_edges_of_order:
  assumes "valid_order K order" "m \<le> K" "length xs = m"
  shows "length (filter (\<lambda>i. i < m \<and> R (xs ! i)) order) = length (filter R xs)"
proof -
  have "filter (\<lambda>i. i < m \<and> R (xs ! i)) order =
        filter (\<lambda>i. R (xs ! i)) (filter (\<lambda>i. i < m) order)"
    by (simp add: conj_commute)
  then have "length (filter (\<lambda>i. i < m \<and> R (xs ! i)) order) =
        length (filter R (map ((!) xs) (filter (\<lambda>i. i < m) order)))"
    by (simp add: filter_map o_def)
  also have "\<dots> = size (filter_mset R (mset (map ((!) xs) (filter (\<lambda>i. i < m) order))))"
    by (metis mset_filter size_mset)
  also have "\<dots> = length (filter R xs)"
    unfolding mset_edges_of_order [OF assms] by (metis mset_filter size_mset)
  finally show ?thesis .
qed

lemma edge_grid_bounds:
  assumes "m < 2 ^ 31"
  shows "m \<le> num_blocks_edges m * 1024" "num_blocks_edges m * 1024 < 2 ^ 32"
proof -
  have nb: "num_blocks_edges m = (m + 1023) div 1024"
    using assms by (intro num_blocks_edges_small) simp
  have "m + 1023 = 1024 * ((m + 1023) div 1024) + (m + 1023) mod 1024"
    by simp
  moreover have "(m + 1023) mod 1024 < 1024" by simp
  ultimately show "m \<le> num_blocks_edges m * 1024"
    unfolding nb by linarith
  have "(m + 1023) div 1024 * 1024 \<le> m + 1023"
    by simp
  then show "num_blocks_edges m * 1024 < 2 ^ 32"
    unfolding nb using assms by simp
qed

lemma histogram_eq:
  fixes g :: SparseGraph
  defines "offs \<equiv> neighbours_start_at g"
  assumes g: "sg_m g = m" "length arr = m" "sg_n g = n" "n < length offs"
    and bounds: "n \<le> 2 ^ 31" "m < 2 ^ 31"
    and ord: "valid_order (num_blocks_edges m * 1024) order"
  shows "histogram order arr m' g =
         Some (g\<lparr>neighbours_start_at :=
           map (\<lambda>p. offs ! p + of_nat (length (filter
                  (\<lambda>e. to_size_t (edge_x e) < n \<and> to_size_t (edge_x e) + 1 = p) arr)))
             [0..<length offs]\<rparr>)"
proof -
  have K: "m \<le> num_blocks_edges m * 1024" "num_blocks_edges m * 1024 < 2 ^ 32"
    using edge_grid_bounds [OF bounds(2)] by simp_all
  have "i < 2 ^ 32" if "i \<in> set order" for i
    using that valid_order_set [OF ord] K(2) by auto
  then have "histogram order arr m' g =
         Some (g\<lparr>neighbours_start_at :=
           map (\<lambda>p. neighbours_start_at g ! p + of_nat (length (filter
                  (\<lambda>i. i < sg_m g \<and> to_size_t (edge_x (arr ! i)) < sg_n g \<and>
                       to_size_t (edge_x (arr ! i)) + 1 = p) order)))
             [0..<length (neighbours_start_at g)]\<rparr>)"
    using g bounds by (intro histogram_partial) (simp_all add: offs_def)
  moreover have "length (filter
                  (\<lambda>i. i < sg_m g \<and> to_size_t (edge_x (arr ! i)) < sg_n g \<and>
                       to_size_t (edge_x (arr ! i)) + 1 = p) order) =
        length (filter (\<lambda>e. to_size_t (edge_x e) < n \<and> to_size_t (edge_x e) + 1 = p) arr)" for p
    unfolding g(1,3)
    by (rule count_edges_of_order [OF ord K(1) g(2),
          where R = "\<lambda>e. to_size_t (edge_x e) < n \<and> to_size_t (edge_x e) + 1 = p"])
  ultimately show ?thesis
    by (simp only: offs_def)
qed

subsection \<open>What the histogram leaves in the offsets\<close>

text \<open>
  Claim C3, amended. The histogram kernel adds to what the array holds on entry: for every
  input with \<open>m < 2^31\<close> edges, after the kernel \<^verbatim>\<open>offsets[v+1]\<close> is its value on entry plus
  the out-degree of \<open>v\<close> (in the 32-bit element type), and \<^verbatim>\<open>offsets[0]\<close> keeps its value on
  entry. So \<^verbatim>\<open>offsets[v+1]\<close> is the out-degree and \<^verbatim>\<open>offsets[0]\<close> is 0 when the array is
  zero on entry.
\<close>

theorem histogram_adds_out_degrees:
  assumes "sg_n g = n" "sg_m g = m" "length edge_list = m"
    and "length (neighbours_start_at g) = n + 1" "n < 2 ^ 31" "m < 2 ^ 31"
    and "valid_order (num_blocks_edges m * 1024) order"
  shows "\<exists>g'. histogram order edge_list m g = Some g' \<and>
           length (neighbours_start_at g') = n + 1 \<and>
           neighbours_start_at g' ! 0 = neighbours_start_at g ! 0 \<and>
           (\<forall>v<n. neighbours_start_at g' ! (v + 1) =
                    neighbours_start_at g ! (v + 1) + of_nat (out_degree edge_list v))"
proof -
  let ?offs = "neighbours_start_at g"
  define offs' where "offs' = map (\<lambda>p. ?offs ! p + of_nat (length (filter
                  (\<lambda>e. to_size_t (edge_x e) < n \<and> to_size_t (edge_x e) + 1 = p) edge_list)))
             [0..<length ?offs]"
  have run: "histogram order edge_list m g = Some (g\<lparr>neighbours_start_at := offs'\<rparr>)"
    unfolding offs'_def using assms by (intro histogram_eq) simp_all
  have len: "length offs' = n + 1"
    by (simp add: offs'_def assms(4))
  have "filter (\<lambda>e. to_size_t (edge_x e) < n \<and> to_size_t (edge_x e) + 1 = 0) edge_list = []"
    by (simp add: filter_empty_conv)
  then have zero: "offs' ! 0 = ?offs ! 0"
    using assms(4) by (simp add: offs'_def del: upt_Suc)
  have deg: "offs' ! (v + 1) = ?offs ! (v + 1) + of_nat (out_degree edge_list v)" if "v < n" for v
  proof -
    have "(\<lambda>e. to_size_t (edge_x e) < n \<and> to_size_t (edge_x e) + 1 = v + 1) =
          (\<lambda>e. to_size_t (edge_x e) = v)"
      using that by auto
    then show ?thesis
      using that assms(4) by (simp add: offs'_def out_degree_def del: upt_Suc)
  qed
  show ?thesis
    unfolding run using len zero deg
    by (intro exI [of _ "g\<lparr>neighbours_start_at := offs'\<rparr>"]) auto
qed

theorem histogram_adds_out_degrees_witness:
  "sg_n \<lparr>sg_n = 1, sg_m = 1, neighbours_start_at = [0, 0], neighbours = [0]\<rparr> = 1 \<and>
   sg_m \<lparr>sg_n = 1, sg_m = 1, neighbours_start_at = [0, 0], neighbours = [0]\<rparr> = 1 \<and>
   length [Edge 0 0] = 1 \<and>
   length (neighbours_start_at \<lparr>sg_n = 1, sg_m = 1, neighbours_start_at = [0, 0],
     neighbours = [0]\<rparr>) = 1 + 1 \<and> (1::nat) < 2 ^ 31 \<and>
   valid_order (num_blocks_edges 1 * 1024) (rev [0..<1024]) \<and>
   (\<exists>g'. histogram (rev [0..<1024]) [Edge 0 0] 1
            \<lparr>sg_n = 1, sg_m = 1, neighbours_start_at = [0, 0], neighbours = [0]\<rparr> = Some g' \<and>
          length (neighbours_start_at g') = 1 + 1 \<and>
          neighbours_start_at g' ! 0 = 0 \<and> neighbours_start_at g' ! 1 = 1)"
  using histogram_adds_out_degrees [of "\<lparr>sg_n = 1, sg_m = 1, neighbours_start_at = [0, 0],
     neighbours = [0]\<rparr>" 1 1 "[Edge 0 0]" "rev [0..<1024]"]
  by (simp add: valid_order_rev num_blocks_edges_def out_degree_def to_size_t_def)

text \<open>
  With \<^verbatim>\<open>offsets = [5, 5]\<close> on entry and the single edge \<open>(0, 0)\<close>, the kernel leaves
  \<^verbatim>\<open>offsets = [5, 6]\<close>: \<^verbatim>\<open>offsets[0]\<close> is not 0 and \<^verbatim>\<open>offsets[1]\<close> is not the out-degree 1.
\<close>

theorem histogram_arbitrary_entry_counterexample:
  "histogram [0..<1024] [Edge 0 0] 1
     \<lparr>sg_n = 1, sg_m = 1, neighbours_start_at = [5, 5], neighbours = [0]\<rparr> =
   Some \<lparr>sg_n = 1, sg_m = 1, neighbours_start_at = [5, 6], neighbours = [0]\<rparr> \<and>
   out_degree [Edge 0 0] 0 = 1 \<and>
   neighbours_start_at \<lparr>sg_n = 1, sg_m = 1, neighbours_start_at = [5, 6], neighbours = [0]\<rparr> ! 0
     \<noteq> 0 \<and>
   neighbours_start_at \<lparr>sg_n = 1, sg_m = 1, neighbours_start_at = [5, 6], neighbours = [0]\<rparr> ! (0 + 1)
     \<noteq> of_nat (out_degree [Edge 0 0] 0)"
proof -
  have "histogram [0..<1024] [Edge 0 0] 1
     \<lparr>sg_n = 1, sg_m = 1, neighbours_start_at = [5, 5], neighbours = [0]\<rparr> =
     Some (\<lparr>sg_n = 1, sg_m = 1, neighbours_start_at = [5, 5], neighbours = [0]\<rparr>
       \<lparr>neighbours_start_at :=
           map (\<lambda>p. neighbours_start_at \<lparr>sg_n = 1, sg_m = 1, neighbours_start_at = [5, 5],
                      neighbours = [0]\<rparr> ! p + of_nat (length (filter
                  (\<lambda>e. to_size_t (edge_x e) < 1 \<and> to_size_t (edge_x e) + 1 = p) [Edge 0 0])))
             [0..<length (neighbours_start_at \<lparr>sg_n = 1, sg_m = 1,
                neighbours_start_at = [5, 5], neighbours = [0]\<rparr>)]\<rparr>)"
  proof (rule histogram_eq)
    have "num_blocks_edges 1 * 1024 = 1024"
      by (simp add: num_blocks_edges_def)
    then show "valid_order (num_blocks_edges 1 * 1024) [0..<1024]"
      by (simp only: valid_order_upt)
  qed simp_all
  moreover have "[0..<2] = [0, 1]"
    by (simp add: upt_rec)
  ultimately show ?thesis
    by (simp add: to_size_t_def out_degree_def)
qed

subsection \<open>The stages of \<^verbatim>\<open>build_graph\<close> before \<^verbatim>\<open>store\<close>\<close>

lemma create_scratch_partial:
  assumes "k \<le> 2 ^ 32" "sg_n g \<le> length scratch" "sg_n g \<le> length (neighbours_start_at g)"
  shows "run_seq (\<lambda>i. create_scratch_thread g (thread_gid i)) [0..<k] scratch =
         Some (map (\<lambda>p. if p < k \<and> p < sg_n g then neighbours_start_at g ! p else scratch ! p)
                 [0..<length scratch])"
  using assms(1)
proof (induction k)
  case 0
  show ?case by (simp add: map_nth)
next
  case (Suc k)
  let ?sc = "map (\<lambda>p. if p < k \<and> p < sg_n g then neighbours_start_at g ! p else scratch ! p)
                 [0..<length scratch]"
  have IH: "run_seq (\<lambda>i. create_scratch_thread g (thread_gid i)) [0..<k] scratch = Some ?sc"
    using Suc by simp
  have gid: "thread_gid k = k"
    using Suc.prems by (intro thread_gid_small) simp
  have step: "create_scratch_thread g k ?sc =
      Some (if k < sg_n g then ?sc[k := neighbours_start_at g ! k] else ?sc)"
    using assms(2,3) by (simp add: create_scratch_thread_def)
  have "(if k < sg_n g then ?sc[k := neighbours_start_at g ! k] else ?sc) =
        map (\<lambda>p. if p < Suc k \<and> p < sg_n g then neighbours_start_at g ! p else scratch ! p)
                 [0..<length scratch]"
    by (rule nth_equalityI) (auto simp: nth_list_update less_Suc_eq)
  with step have "create_scratch_thread g k ?sc =
      Some (map (\<lambda>p. if p < Suc k \<and> p < sg_n g then neighbours_start_at g ! p else scratch ! p)
                 [0..<length scratch])"
    by (simp only:)
  then show ?case
    using run_seq_snoc [OF IH, of k] gid by simp
qed

lemma create_scratch_eq:
  assumes "grid * 1024 \<le> 2 ^ 32" "sg_n g \<le> grid * 1024" "length scratch = sg_n g"
    "sg_n g \<le> length (neighbours_start_at g)"
  shows "create_scratch grid g scratch =
         Some (map (\<lambda>p. neighbours_start_at g ! p) [0..<sg_n g])"
proof -
  have "create_scratch grid g scratch =
        Some (map (\<lambda>p. if p < grid * 1024 \<and> p < sg_n g then neighbours_start_at g ! p
                        else scratch ! p) [0..<length scratch])"
    unfolding create_scratch_def using assms by (intro create_scratch_partial) simp_all
  moreover have "map (\<lambda>p. if p < grid * 1024 \<and> p < sg_n g then neighbours_start_at g ! p
                        else scratch ! p) [0..<length scratch] =
                 map (\<lambda>p. neighbours_start_at g ! p) [0..<sg_n g]"
    using assms(2,3) by (intro nth_equalityI) auto
  ultimately show ?thesis by (simp only:)
qed

lemma run_seq_preserves:
  assumes "\<And>i s s'. f i s = Some s' \<Longrightarrow> I s \<Longrightarrow> I s'" "run_seq f ts s = Some s'" "I s"
  shows "I s'"
  using assms(2,3)
proof (induction ts arbitrary: s)
  case Nil
  then show ?case by simp
next
  case (Cons i ts)
  then show ?case
    by (auto split: option.splits dest: assms(1))
qed

lemma histogram_thread_fields:
  assumes "histogram_thread arr m i g = Some g'"
  shows "sg_n g' = sg_n g \<and> sg_m g' = sg_m g \<and> neighbours g' = neighbours g \<and>
         length (neighbours_start_at g') = length (neighbours_start_at g)"
  using assms
  by (auto simp: histogram_thread_def atomicAdd_def Let_def split: if_splits option.splits)

text \<open>
  \<^verbatim>\<open>build_graph\<close> up to its last launch: the offsets after the scan, and the counters that
  \<^verbatim>\<open>store\<close> starts from. Nothing is assumed about the contents of the arrays or about
  the sources of the edges.
\<close>

lemma build_graph_to_store:
  fixes g :: SparseGraph
  defines "offs \<equiv> neighbours_start_at g"
  assumes sizes: "sg_n g = n" "sg_m g = m" "length edge_list = m" "length offs = n + 1"
    and bounds: "n < 6291456" "m < 2 ^ 31"
    and run: "valid_run r m n"
  defines "hist \<equiv> (\<lambda>j. offs ! j + of_nat (length (filter
              (\<lambda>e. to_size_t (edge_x e) < n \<and> to_size_t (edge_x e) + 1 = j) edge_list)))"
  shows "build_graph r g edge_list m n =
         store (store_order r) edge_list
           (g\<lparr>neighbours_start_at := map (\<lambda>p. \<Sum>j\<le>p. hist j) [0..<n + 1]\<rparr>,
            map (\<lambda>p. \<Sum>j\<le>p. hist j) [0..<n])
         \<bind> (\<lambda>s. Some (fst s))"
proof -
  define offs1 where "offs1 = map hist [0..<length offs]"
  define offs2 where "offs2 = map (\<lambda>p. \<Sum>j\<le>p. hist j) [0..<n + 1]"
  have ords: "valid_order (num_blocks_edges m * 1024) (hist_order r)"
    "valid_order (num_blocks n) (scan_order r)"
    using run by (simp_all add: valid_run_def)
  have nb: "num_blocks n = (n + 1024) div 1024"
    using bounds(1) by (intro num_blocks_small) simp
  have k1: "histogram (hist_order r) edge_list m g = Some (g\<lparr>neighbours_start_at := offs1\<rparr>)"
    unfolding offs1_def hist_def offs_def
    using sizes bounds ords(1) by (intro histogram_eq) (simp_all add: offs_def)
  have sel: "neighbours_start_at (g\<lparr>neighbours_start_at := offs1\<rparr>) = offs1"
    by simp
  have upd: "g\<lparr>neighbours_start_at := offs1\<rparr>\<lparr>neighbours_start_at := Z\<rparr> =
             g\<lparr>neighbours_start_at := Z\<rparr>" for Z
    by simp
  have "scan_stages r (g\<lparr>neighbours_start_at := offs1\<rparr>) n =
         Some (g\<lparr>neighbours_start_at := offs1\<rparr>\<lparr>neighbours_start_at :=
                   map (\<lambda>p. if p \<le> n
                        then (\<Sum>j\<le>p. neighbours_start_at (g\<lparr>neighbours_start_at := offs1\<rparr>) ! j)
                        else neighbours_start_at (g\<lparr>neighbours_start_at := offs1\<rparr>) ! p)
                     [0..<length (neighbours_start_at (g\<lparr>neighbours_start_at := offs1\<rparr>))]\<rparr>)"
    using sizes bounds ords(2) by (intro scan_stages_eq) (simp_all add: offs1_def)
  moreover have "map (\<lambda>p. if p \<le> n then (\<Sum>j\<le>p. offs1 ! j) else offs1 ! p) [0..<length offs1] = offs2"
    unfolding offs2_def
  proof (rule nth_equalityI)
    fix p assume "p < length (map (\<lambda>p. if p \<le> n then (\<Sum>j\<le>p. offs1 ! j) else offs1 ! p)
                                [0..<length offs1])"
    then have p: "p < n + 1" by (simp add: offs1_def sizes)
    have "(\<Sum>j\<le>p. offs1 ! j) = (\<Sum>j\<le>p. hist j)"
      using p sizes(4) by (intro sum.cong) (auto simp: offs1_def simp del: upt_Suc)
    then show "map (\<lambda>p. if p \<le> n then (\<Sum>j\<le>p. offs1 ! j) else offs1 ! p) [0..<length offs1] ! p =
               map (\<lambda>p. \<Sum>j\<le>p. hist j) [0..<n + 1] ! p"
      using p sizes(4) by (simp add: offs1_def del: upt_Suc)
  qed (simp add: offs1_def sizes)
  ultimately have k2: "scan_stages r (g\<lparr>neighbours_start_at := offs1\<rparr>) n =
      Some (g\<lparr>neighbours_start_at := offs2\<rparr>)"
    unfolding sel upd by (simp only:)
  have "create_scratch (num_blocks n) (g\<lparr>neighbours_start_at := offs2\<rparr>)
          (map (prefix_sums_init r) [0..<n]) =
        Some (map (\<lambda>p. neighbours_start_at (g\<lparr>neighbours_start_at := offs2\<rparr>) ! p)
                [0..<sg_n (g\<lparr>neighbours_start_at := offs2\<rparr>)])"
    using sizes bounds(1) unfolding nb by (intro create_scratch_eq) (simp_all add: offs2_def)
  moreover have "map (\<lambda>p. offs2 ! p) [0..<n] = map (\<lambda>p. \<Sum>j\<le>p. hist j) [0..<n]"
    by (rule nth_equalityI) (simp_all add: offs2_def del: upt_Suc)
  ultimately have k3: "create_scratch (num_blocks n) (g\<lparr>neighbours_start_at := offs2\<rparr>)
          (map (prefix_sums_init r) [0..<n]) = Some (map (\<lambda>p. \<Sum>j\<le>p. hist j) [0..<n])"
    using sizes(1) by simp
  show ?thesis
    unfolding build_graph_def Let_def
    by (simp only: k1 k2 k3 Option.bind.simps offs2_def [symmetric])
       (simp add: case_prod_unfold)
qed

subsection \<open>Segments and counts\<close>

lemma take_drop_update_last:
  assumes "a + c < length xs"
  shows "take (Suc c) (drop a (xs[a + c := y])) = take c (drop a xs) @ [y]"
proof -
  have "drop a (xs[a + c := y]) = (drop a xs)[c := y]"
    by (simp add: drop_update_swap)
  moreover have "c < length (drop a xs)"
    using assms by simp
  ultimately show ?thesis
    by (simp add: take_Suc_conv_app_nth)
qed

lemma take_drop_update_outside:
  assumes "pos < a \<or> a + c \<le> pos"
  shows "take c (drop a (xs[pos := y])) = take c (drop a xs)"
proof (cases "pos < a")
  case True
  then show ?thesis by simp
next
  case False
  then have "drop a (xs[pos := y]) = (drop a xs)[pos - a := y]" "c \<le> pos - a"
    using assms by (simp_all add: drop_update_swap)
  then show ?thesis by simp
qed

lemma edges_below_Suc:
  "edges_below es (Suc v) = edges_below es v + out_degree es v"
  unfolding edges_below_def out_degree_def
  by (induction es) (auto simp: less_Suc_eq)

lemma edges_below_mono: "v \<le> w \<Longrightarrow> edges_below es v \<le> edges_below es w"
  unfolding edges_below_def
  by (induction es) (auto simp: le_SucI)

lemma edges_below_le: "edges_below es v \<le> length es"
  unfolding edges_below_def by simp

lemma edges_below_0: "edges_below es 0 = 0"
  unfolding edges_below_def by simp

lemma edges_below_all:
  "(\<And>e. e \<in> set es \<Longrightarrow> to_size_t (edge_x e) < n) \<Longrightarrow> edges_below es n = length es"
  unfolding edges_below_def by (induction es) auto

lemma processed_snoc:
  "processed es m (ts @ [i]) = (if i < m then processed es m ts @ [es ! i] else processed es m ts)"
  by (simp add: processed_def)

lemma out_degree_snoc:
  "out_degree (es @ [e]) v = out_degree es v + (if to_size_t (edge_x e) = v then 1 else 0)"
  by (simp add: out_degree_def)

lemma destinations_snoc:
  "destinations (es @ [e]) v =
   destinations es v @ (if to_size_t (edge_x e) = v then [edge_y e] else [])"
  by (simp add: destinations_def)

lemma distinct_subset_mset:
  assumes "distinct xs" "set xs \<subseteq> set ys"
  shows "mset xs \<subseteq># mset ys"
proof (rule mset_subset_eqI)
  fix a
  show "count (mset xs) a \<le> count (mset ys) a"
  proof (cases "a \<in> set xs")
    case True
    then have "count (mset xs) a = 1"
      using assms(1) by (simp add: distinct_count_atmost_1)
    moreover have "0 < count (mset ys) a"
      using True assms(2) by (auto simp: count_greater_zero_iff)
    ultimately show ?thesis by simp
  next
    case False
    then have "count (mset xs) a = 0"
      by (metis not_in_iff set_mset_mset)
    then show ?thesis by (simp only: le0)
  qed
qed

lemma processed_subset:
  assumes "distinct ts" "length es = m"
  shows "mset (processed es m ts) \<subseteq># mset es"
proof -
  have "distinct (filter (\<lambda>i. i < m) ts)" "set (filter (\<lambda>i. i < m) ts) \<subseteq> set [0..<m]"
    using assms(1) by auto
  then have "mset (filter (\<lambda>i. i < m) ts) \<subseteq># mset [0..<m]"
    by (rule distinct_subset_mset)
  then have "image_mset ((!) es) (mset (filter (\<lambda>i. i < m) ts)) \<subseteq>#
             image_mset ((!) es) (mset [0..<m])"
    by (rule image_mset_subseteq_mono)
  moreover have "map ((!) es) [0..<m] = es"
    using assms(2) map_nth [of es] by simp
  ultimately show ?thesis
    unfolding processed_def by (metis mset_map)
qed

lemma out_degree_subset:
  assumes "mset es \<subseteq># mset fs"
  shows "out_degree es v \<le> out_degree fs v"
proof -
  have "filter_mset (\<lambda>e. to_size_t (edge_x e) = v) (mset es) \<subseteq>#
        filter_mset (\<lambda>e. to_size_t (edge_x e) = v) (mset fs)"
    using assms by (rule multiset_filter_mono)
  then have "size (filter_mset (\<lambda>e. to_size_t (edge_x e) = v) (mset es)) \<le>
             size (filter_mset (\<lambda>e. to_size_t (edge_x e) = v) (mset fs))"
    by (rule size_mset_mono)
  then show ?thesis
    unfolding out_degree_def by (metis mset_filter size_mset)
qed

lemma out_degree_processed_le:
  "distinct ts \<Longrightarrow> length es = m \<Longrightarrow> out_degree (processed es m ts) v \<le> out_degree es v"
  by (intro out_degree_subset processed_subset)

subsection \<open>The kernel \<^verbatim>\<open>store\<close>\<close>

lemma store_thread_idle: "\<not> i < sg_m (fst s) \<Longrightarrow> store_thread edges i s = Some s"
  by (simp add: store_thread_def Let_def)

lemma store_thread_step:
  assumes "i < sg_m g" "i < length edges"
    and "to_size_t (edge_x (edges ! i)) = u" "u < length sc" "u < 2 ^ 31"
    and "sc ! u = of_nat pos" "pos < length (neighbours g)" "pos < 2 ^ 31"
  shows "store_thread edges i (g, sc) =
         Some (g\<lparr>neighbours := (neighbours g)[pos := edge_y (edges ! i)]\<rparr>,
               sc[u := of_nat pos + 1])"
proof -
  let ?v = "edge_x (edges ! i)"
  have v: "0 \<le> sint ?v" "nat (sint ?v) = u"
    using to_size_t_small [of ?v "2 ^ 31"] assms(3,5) by simp_all
  have add: "atomicAdd sc (sint ?v) 1 = Some (of_nat pos, sc[u := of_nat pos + 1])"
    unfolding atomicAdd_def using v assms(4,6) by simp
  have pos: "0 \<le> sint (of_nat pos :: node_t)" "nat (sint (of_nat pos :: node_t)) = pos"
    using sint_of_nat_small [OF assms(8)] by simp_all
  show ?thesis
    unfolding store_thread_def Let_def fst_conv snd_conv
    using assms(1,2,7) pos by (simp add: add)
qed

lemma store_partial:
  fixes g :: SparseGraph
  assumes sizes: "sg_m g = m" "length edges = m" "length (neighbours g) = m"
    and bounds: "n \<le> 2 ^ 31" "m < 2 ^ 31"
    and src: "\<And>e. e \<in> set edges \<Longrightarrow> to_size_t (edge_x e) < n"
    and ts: "distinct ts" "\<And>i. i \<in> set ts \<Longrightarrow> i < 2 ^ 32"
  shows "\<exists>nb. store ts edges (g, map (\<lambda>v. of_nat (edges_below edges v)) [0..<n]) =
              Some (g\<lparr>neighbours := nb\<rparr>,
                    map (\<lambda>v. of_nat (edges_below edges v + out_degree (processed edges m ts) v))
                      [0..<n]) \<and>
            length nb = m \<and>
            (\<forall>v<n. mset (take (out_degree (processed edges m ts) v)
                            (drop (edges_below edges v) nb)) =
                   mset (destinations (processed edges m ts) v))"
  using ts
proof (induction ts rule: rev_induct)
  case Nil
  have "g\<lparr>neighbours := neighbours g\<rparr> = g" by simp
  then show ?case
    using sizes(3)
    by (intro exI [of _ "neighbours g"])
       (simp add: store_def processed_def out_degree_def destinations_def)
next
  case (snoc i ts)
  let ?pe = "processed edges m ts"
  let ?sc = "map (\<lambda>v. of_nat (edges_below edges v + out_degree ?pe v)) [0..<n] :: node_t list"
  have dist: "distinct ts" "i \<notin> set ts" and small: "\<And>j. j \<in> set ts \<Longrightarrow> j < 2 ^ 32"
    using snoc.prems by auto
  obtain nb where run: "store ts edges (g, map (\<lambda>v. of_nat (edges_below edges v)) [0..<n]) =
              Some (g\<lparr>neighbours := nb\<rparr>, ?sc)"
    and len: "length nb = m"
    and seg: "\<And>v. v < n \<Longrightarrow> mset (take (out_degree ?pe v) (drop (edges_below edges v) nb)) =
                   mset (destinations ?pe v)"
    using snoc.IH [OF dist(1) small] by blast
  have gid: "thread_gid i = i"
    using snoc.prems(2) by (intro thread_gid_small) simp
  have next_step: "store (ts @ [i]) edges (g, map (\<lambda>v. of_nat (edges_below edges v)) [0..<n]) =
        store_thread edges i (g\<lparr>neighbours := nb\<rparr>, ?sc)"
    using run_seq_snoc [OF run [unfolded store_def], of i] gid by (simp add: store_def)
  show ?case
  proof (cases "i < m")
    case False
    then have "store_thread edges i (g\<lparr>neighbours := nb\<rparr>, ?sc) = Some (g\<lparr>neighbours := nb\<rparr>, ?sc)"
      using sizes(1) by (intro store_thread_idle) simp
    moreover have "processed edges m (ts @ [i]) = ?pe"
      using False by (simp add: processed_snoc)
    ultimately show ?thesis
      using next_step len seg by (intro exI [of _ nb]) simp
  next
    case True
    define e where "e = edges ! i"
    define u where "u = to_size_t (edge_x e)"
    define pos where "pos = edges_below edges u + out_degree ?pe u"
    have e: "e \<in> set edges" using True sizes(2) by (simp add: e_def)
    then have u: "u < n" using src by (simp add: u_def)
    have pe': "processed edges m (ts @ [i]) = ?pe @ [e]"
      using True by (simp add: processed_snoc e_def)
    have od': "out_degree (?pe @ [e]) v = out_degree ?pe v + (if v = u then 1 else 0)" for v
      by (auto simp: out_degree_snoc u_def)
    have le: "out_degree (?pe @ [e]) v \<le> out_degree edges v" for v
      using out_degree_processed_le [OF snoc.prems(1) sizes(2), of v] by (simp add: pe')
    have room: "edges_below edges v + out_degree edges v \<le> edges_below edges w" if "v < w" for v w
      using edges_below_mono [of "Suc v" w edges] that by (simp add: edges_below_Suc)
    have "pos < edges_below edges (Suc u)"
      using le [of u] by (simp add: pos_def od' edges_below_Suc)
    then have pos: "pos < m"
      using edges_below_le [of edges "Suc u"] sizes(2) by simp
    have "store_thread edges i (g\<lparr>neighbours := nb\<rparr>, ?sc) =
         Some (g\<lparr>neighbours := nb\<rparr>\<lparr>neighbours :=
                  (neighbours (g\<lparr>neighbours := nb\<rparr>))[pos := edge_y (edges ! i)]\<rparr>,
               ?sc[u := of_nat pos + 1])"
      using True sizes u bounds pos len
      by (intro store_thread_step) (simp_all add: e_def u_def pos_def)
    then have step: "store_thread edges i (g\<lparr>neighbours := nb\<rparr>, ?sc) =
         Some (g\<lparr>neighbours := nb[pos := edge_y e]\<rparr>, ?sc[u := of_nat pos + 1])"
      by (simp add: e_def)
    have sc': "?sc[u := of_nat pos + 1] =
        map (\<lambda>v. of_nat (edges_below edges v + out_degree (?pe @ [e]) v)) [0..<n]"
      by (rule nth_equalityI) (auto simp: nth_list_update od' pos_def)
    have seg': "mset (take (out_degree (?pe @ [e]) v)
                       (drop (edges_below edges v) (nb[pos := edge_y e]))) =
                mset (destinations (?pe @ [e]) v)" if "v < n" for v
    proof (cases "v = u")
      case True
      have "take (Suc (out_degree ?pe u))
              (drop (edges_below edges u) (nb[edges_below edges u + out_degree ?pe u := edge_y e])) =
            take (out_degree ?pe u) (drop (edges_below edges u) nb) @ [edge_y e]"
        using pos len by (intro take_drop_update_last) (simp add: pos_def)
      then show ?thesis
        using True seg [OF that] by (simp add: od' destinations_snoc u_def pos_def)
    next
      case False
      have outside: "pos < edges_below edges v \<or>
                     edges_below edges v + out_degree ?pe v \<le> pos"
      proof (cases "v < u")
        case True
        have "out_degree ?pe v \<le> out_degree edges v"
          using le [of v] False by (simp add: od')
        then have "edges_below edges v + out_degree ?pe v \<le> edges_below edges u"
          using room [OF True] by simp
        then show ?thesis by (simp add: pos_def)
      next
        case nless: False
        then have "u < v" using False by simp
        moreover have "pos < edges_below edges u + out_degree edges u"
          using le [of u] by (simp add: pos_def od')
        ultimately show ?thesis using room [of u v] by simp
      qed
      have "take (out_degree ?pe v) (drop (edges_below edges v) (nb[pos := edge_y e])) =
            take (out_degree ?pe v) (drop (edges_below edges v) nb)"
        using outside by (rule take_drop_update_outside)
      then show ?thesis
        using False seg [OF that] by (simp add: od' destinations_snoc u_def)
    qed
    show ?thesis
      unfolding next_step step pe' sc'
      using len seg' by (intro exI [of _ "nb[pos := edge_y e]"]) simp
  qed
qed

subsection \<open>The result of \<^verbatim>\<open>build_graph\<close>\<close>

lemma sum_counts:
  "(\<Sum>j\<le>p. length (filter (\<lambda>e. Q e \<and> f e = j) es)) = length (filter (\<lambda>e. Q e \<and> f e \<le> p) es)"
  for f :: "'a \<Rightarrow> nat"
proof (induction es)
  case Nil
  show ?case by simp
next
  case (Cons e es)
  have "(\<Sum>j\<le>p. length (filter (\<lambda>e. Q e \<and> f e = j) (e # es))) =
        (\<Sum>j\<le>p. (if f e = j then (if Q e then 1 else 0) else 0) +
                   length (filter (\<lambda>e. Q e \<and> f e = j) es))"
    by (intro sum.cong) auto
  also have "\<dots> = (\<Sum>j\<le>p. if f e = j then (if Q e then 1 else 0) else 0) +
                   (\<Sum>j\<le>p. length (filter (\<lambda>e. Q e \<and> f e = j) es))"
    by (rule sum.distrib)
  also have "(\<Sum>j\<le>p. if f e = j then (if Q e then 1 else 0) else 0) =
             (if f e \<in> {..p} then (if Q e then 1 else 0) else (0::nat))"
    by (rule sum.delta') simp
  finally show ?case
    using Cons by auto
qed

lemma scanned_histogram:
  assumes "p \<le> n"
  shows "(\<Sum>j\<le>p. (0 :: node_t) + of_nat (length (filter
            (\<lambda>e. to_size_t (edge_x e) < n \<and> to_size_t (edge_x e) + 1 = j) es))) =
         of_nat (edges_below es p)"
proof -
  have "(\<Sum>j\<le>p. length (filter
            (\<lambda>e. to_size_t (edge_x e) < n \<and> to_size_t (edge_x e) + 1 = j) es)) =
        length (filter (\<lambda>e. to_size_t (edge_x e) < n \<and> to_size_t (edge_x e) + 1 \<le> p) es)"
    by (rule sum_counts)
  also have "(\<lambda>e. to_size_t (edge_x e) < n \<and> to_size_t (edge_x e) + 1 \<le> p) =
             (\<lambda>e. to_size_t (edge_x e) < p)"
    using assms by auto
  finally show ?thesis
    by (simp add: edges_below_def flip: of_nat_sum)
qed

lemma out_degree_mset: "mset es = mset fs \<Longrightarrow> out_degree es v = out_degree fs v"
  unfolding out_degree_def by (metis mset_filter size_mset)

lemma destinations_mset: "mset es = mset fs \<Longrightarrow> mset (destinations es v) = mset (destinations fs v)"
  unfolding destinations_def by (metis mset_filter mset_map)

lemma processed_all:
  assumes "valid_order K order" "m \<le> K" "length es = m"
  shows "mset (processed es m order) = mset es"
  unfolding processed_def using assms by (rule mset_edges_of_order)

text \<open>
  The result of \<^verbatim>\<open>build_graph\<close> on an input that meets the preconditions and whose offsets
  are zero on entry.
\<close>

lemma build_graph_csr:
  fixes g :: SparseGraph
  assumes sizes: "sg_n g = n" "sg_m g = m" "length edge_list = m"
      "length (neighbours_start_at g) = n + 1" "length (neighbours g) = m"
    and bounds: "n < 6291456" "m < 2 ^ 31"
    and src: "\<And>e. e \<in> set edge_list \<Longrightarrow> to_size_t (edge_x e) < n"
    and zero: "\<And>i. i \<le> n \<Longrightarrow> neighbours_start_at g ! i = 0"
    and run: "valid_run r m n"
  shows "\<exists>nb. build_graph r g edge_list m n =
              Some (g\<lparr>neighbours_start_at := map (\<lambda>p. of_nat (edges_below edge_list p)) [0..<n + 1],
                      neighbours := nb\<rparr>) \<and>
            length nb = m \<and>
            (\<forall>v<n. mset (take (out_degree edge_list v) (drop (edges_below edge_list v) nb)) =
                   mset (destinations edge_list v))"
proof -
  define hist where "hist = (\<lambda>j. neighbours_start_at g ! j + of_nat (length (filter
              (\<lambda>e. to_size_t (edge_x e) < n \<and> to_size_t (edge_x e) + 1 = j) edge_list)))"
  define offs' :: "node_t list" where "offs' = map (\<lambda>p. of_nat (edges_below edge_list p)) [0..<n + 1]"
  define g1 where "g1 = g\<lparr>neighbours_start_at := offs'\<rparr>"
  have scanned: "(\<Sum>j\<le>p. hist j) = of_nat (edges_below edge_list p)" if "p \<le> n" for p
  proof -
    have "(\<Sum>j\<le>p. hist j) = (\<Sum>j\<le>p. (0 :: node_t) + of_nat (length (filter
            (\<lambda>e. to_size_t (edge_x e) < n \<and> to_size_t (edge_x e) + 1 = j) edge_list)))"
      using that by (intro sum.cong) (auto simp: hist_def zero)
    then show ?thesis
      using that by (simp only: scanned_histogram)
  qed
  have F: "map (\<lambda>p. \<Sum>j\<le>p. hist j) [0..<n + 1] = offs'"
    unfolding offs'_def by (rule map_cong) (auto simp: scanned)
  have F': "map (\<lambda>p. \<Sum>j\<le>p. hist j) [0..<n] = map (\<lambda>v. of_nat (edges_below edge_list v)) [0..<n]"
    by (rule map_cong) (auto simp: scanned)
  have to_store: "build_graph r g edge_list m n =
      store (store_order r) edge_list
        (g1, map (\<lambda>v. of_nat (edges_below edge_list v)) [0..<n]) \<bind> (\<lambda>s. Some (fst s))"
    using build_graph_to_store [OF sizes(1-4) bounds run]
    unfolding hist_def [symmetric] F F' g1_def .
  have ord: "valid_order (num_blocks_edges m * 1024) (store_order r)"
    using run by (simp add: valid_run_def)
  have K: "m \<le> num_blocks_edges m * 1024" "num_blocks_edges m * 1024 < 2 ^ 32"
    using edge_grid_bounds [OF bounds(2)] by simp_all
  have small: "i < 2 ^ 32" if "i \<in> set (store_order r)" for i
    using that valid_order_set [OF ord] K(2) by auto
  have all: "mset (processed edge_list m (store_order r)) = mset edge_list"
    using ord K(1) sizes(3) by (rule processed_all)
  have "\<exists>nb. store (store_order r) edge_list (g1, map (\<lambda>v. of_nat (edges_below edge_list v)) [0..<n]) =
              Some (g1\<lparr>neighbours := nb\<rparr>,
                    map (\<lambda>v. of_nat (edges_below edge_list v +
                           out_degree (processed edge_list m (store_order r)) v)) [0..<n]) \<and>
            length nb = m \<and>
            (\<forall>v<n. mset (take (out_degree (processed edge_list m (store_order r)) v)
                            (drop (edges_below edge_list v) nb)) =
                   mset (destinations (processed edge_list m (store_order r)) v))"
    using sizes bounds src valid_order_distinct [OF ord] small
    by (intro store_partial) (simp_all add: g1_def)
  then obtain nb where st: "store (store_order r) edge_list
        (g1, map (\<lambda>v. of_nat (edges_below edge_list v)) [0..<n]) =
              Some (g1\<lparr>neighbours := nb\<rparr>,
                    map (\<lambda>v. of_nat (edges_below edge_list v +
                           out_degree (processed edge_list m (store_order r)) v)) [0..<n])"
    and len: "length nb = m"
    and seg: "\<And>v. v < n \<Longrightarrow>
                mset (take (out_degree (processed edge_list m (store_order r)) v)
                            (drop (edges_below edge_list v) nb)) =
                   mset (destinations (processed edge_list m (store_order r)) v)"
    by blast
  have "build_graph r g edge_list m n = Some (g1\<lparr>neighbours := nb\<rparr>)"
    unfolding to_store st by simp
  moreover have "mset (take (out_degree edge_list v) (drop (edges_below edge_list v) nb)) =
                 mset (destinations edge_list v)" if "v < n" for v
    using seg [OF that] out_degree_mset [OF all, of v] destinations_mset [OF all, of v] by simp
  ultimately show ?thesis
    using len unfolding g1_def offs'_def by (intro exI [of _ nb]) simp
qed

subsection \<open>The offsets and the segments of the result\<close>

lemma build_graph_result:
  assumes pre: "stated_preconditions g edge_list m n" and zero: "zero_on_entry g"
    and run: "valid_run r m n"
  shows "\<exists>nb. build_graph r g edge_list m n =
              Some (g\<lparr>neighbours_start_at := map (\<lambda>p. of_nat (edges_below edge_list p)) [0..<n + 1],
                      neighbours := nb\<rparr>) \<and>
            length nb = m \<and>
            (\<forall>v<n. mset (take (out_degree edge_list v) (drop (edges_below edge_list v) nb)) =
                   mset (destinations edge_list v))"
proof (rule build_graph_csr)
  show "neighbours_start_at g ! i = 0" if "i \<le> n" for i
  proof -
    have "i < length (neighbours_start_at g)"
      using that pre by (simp add: stated_preconditions_def)
    then show ?thesis
      using zero by (simp add: zero_on_entry_def list_all_length)
  qed
  show "to_size_t (edge_x e) < n" if "e \<in> set edge_list" for e
    using that pre by (simp add: stated_preconditions_def list_all_iff)
qed (use pre run in \<open>simp_all add: stated_preconditions_def\<close>)

lemma offset_csr:
  assumes "length edge_list < 2 ^ 31" "v \<le> n"
  shows "sint (neighbours_start_at
           (g\<lparr>neighbours_start_at := map (\<lambda>p. of_nat (edges_below edge_list p)) [0..<n + 1],
              neighbours := nb\<rparr>) ! v) = int (edges_below edge_list v)"
proof -
  have "edges_below edge_list v < 2 ^ 31"
    using edges_below_le [of edge_list v] assms(1) by simp
  then have "sint (of_nat (edges_below edge_list v) :: node_t) = int (edges_below edge_list v)"
    by (rule sint_of_nat_small)
  then show ?thesis
    using assms(2) by (simp del: upt_Suc)
qed

lemma segment_csr:
  assumes "length edge_list < 2 ^ 31" "v < n"
  shows "segment (g\<lparr>neighbours_start_at := map (\<lambda>p. of_nat (edges_below edge_list p)) [0..<n + 1],
              neighbours := nb\<rparr>) v =
         take (out_degree edge_list v) (drop (edges_below edge_list v) nb)"
proof -
  let ?g = "g\<lparr>neighbours_start_at := map (\<lambda>p. of_nat (edges_below edge_list p)) [0..<n + 1],
              neighbours := nb\<rparr>"
  have "offset ?g v = edges_below edge_list v"
    using offset_csr [OF assms(1), where v = v and n = n and g = g and nb = nb] assms(2)
    by (simp add: offset_def del: upt_Suc)
  moreover have "offset ?g (v + 1) = edges_below edge_list (Suc v)"
    using offset_csr [OF assms(1), where v = "v + 1" and n = n and g = g and nb = nb] assms(2)
    by (simp add: offset_def del: upt_Suc)
  ultimately show ?thesis
    unfolding segment_def by (simp add: edges_below_Suc)
qed

subsection \<open>\<^verbatim>\<open>build_graph\<close> on offsets that happen to be zero on entry\<close>

text \<open>
  \<^verbatim>\<open>build_graph\<close> never initialises the offsets array: \<^verbatim>\<open>histogram\<close> adds to its cells with
  \<^verbatim>\<open>atomicAdd\<close>, and \<^verbatim>\<open>offsets[0]\<close> keeps its entry value. The four lemmas of this subsection say
  what it computes in the runs where the array holds zeros on entry; a later subsection
  evaluates it on arrays that are only allocated.

  From zeroed offsets, for every run, \<^verbatim>\<open>build_graph\<close> returns and, for every vertex
  \<open>v < n\<close>, the sub-range \<^verbatim>\<open>neighbours[offsets[v] .. offsets[v+1])\<close> is, as a multiset, the
  multiset of the destinations of the input edges whose source is \<open>v\<close>.
\<close>

lemma build_graph_segments:
  assumes "stated_preconditions g edge_list m n" "zero_on_entry g" "valid_run r m n"
  shows "\<exists>g'. build_graph r g edge_list m n = Some g' \<and>
           (\<forall>v<n. mset (segment g' v) = mset (destinations edge_list v))"
proof -
  have m: "length edge_list < 2 ^ 31"
    using assms(1) by (simp add: stated_preconditions_def)
  obtain nb where run: "build_graph r g edge_list m n =
              Some (g\<lparr>neighbours_start_at := map (\<lambda>p. of_nat (edges_below edge_list p)) [0..<n + 1],
                      neighbours := nb\<rparr>)"
    and seg: "\<And>v. v < n \<Longrightarrow>
      mset (take (out_degree edge_list v) (drop (edges_below edge_list v) nb)) =
      mset (destinations edge_list v)"
    using build_graph_result [OF assms] by blast
  define g' where "g' = g\<lparr>neighbours_start_at :=
      map (\<lambda>p. of_nat (edges_below edge_list p)) [0..<n + 1], neighbours := nb\<rparr>"
  have "mset (segment g' v) = mset (destinations edge_list v)" if "v < n" for v
    unfolding g'_def using seg [OF that] by (simp only: segment_csr [OF m that])
  then show ?thesis
    using run unfolding g'_def [symmetric] by blast
qed

text \<open>
  From zeroed offsets, after \<^verbatim>\<open>build_graph\<close> the offsets array has \<^verbatim>\<open>offsets[0] == 0\<close>,
  \<^verbatim>\<open>offsets[n] == m\<close> and \<^verbatim>\<open>offsets[i] <= offsets[i+1]\<close> for every \<open>i < n\<close>.
\<close>

lemma build_graph_offsets:
  assumes "stated_preconditions g edge_list m n" "zero_on_entry g" "valid_run r m n"
  shows "\<exists>g'. build_graph r g edge_list m n = Some g' \<and>
           length (neighbours_start_at g') = n + 1 \<and>
           neighbours_start_at g' ! 0 = 0 \<and>
           sint (neighbours_start_at g' ! n) = int m \<and>
           (\<forall>i<n. sint (neighbours_start_at g' ! i) \<le> sint (neighbours_start_at g' ! (i + 1)))"
proof -
  have m: "length edge_list < 2 ^ 31" "length edge_list = m"
    and src: "\<And>e. e \<in> set edge_list \<Longrightarrow> to_size_t (edge_x e) < n"
    using assms(1) by (simp_all add: stated_preconditions_def list_all_iff)
  obtain nb where run: "build_graph r g edge_list m n =
              Some (g\<lparr>neighbours_start_at := map (\<lambda>p. of_nat (edges_below edge_list p)) [0..<n + 1],
                      neighbours := nb\<rparr>)"
    using build_graph_result [OF assms] by blast
  let ?g' = "g\<lparr>neighbours_start_at := map (\<lambda>p. of_nat (edges_below edge_list p)) [0..<n + 1],
                      neighbours := nb\<rparr>"
  have val: "sint (neighbours_start_at ?g' ! v) = int (edges_below edge_list v)" if "v \<le> n" for v
    using that by (rule offset_csr [OF m(1)])
  have "neighbours_start_at ?g' ! 0 = 0"
    by (simp add: edges_below_0 del: upt_Suc)
  moreover have "sint (neighbours_start_at ?g' ! n) = int m"
    using val [of n] edges_below_all [of edge_list n] src m(2) by simp
  moreover have "sint (neighbours_start_at ?g' ! i) \<le> sint (neighbours_start_at ?g' ! (i + 1))"
    if "i < n" for i
    using that val [of i] val [of "i + 1"] edges_below_mono [of i "i + 1" edge_list] by simp
  moreover have "length (neighbours_start_at ?g') = n + 1"
    by simp
  ultimately show ?thesis
    unfolding run by (intro exI [of _ ?g']) blast
qed

text \<open>
  From zeroed offsets, any two runs of \<^verbatim>\<open>build_graph\<close> return, with the same offsets array
  and, for every vertex \<open>v < n\<close>, with the same multiset in
  \<^verbatim>\<open>neighbours[offsets[v] .. offsets[v+1])\<close>.
\<close>

lemma build_graph_deterministic:
  assumes "stated_preconditions g edge_list m n" "zero_on_entry g"
    and "valid_run r1 m n" "valid_run r2 m n"
  shows "\<exists>g1 g2. build_graph r1 g edge_list m n = Some g1 \<and>
           build_graph r2 g edge_list m n = Some g2 \<and>
           neighbours_start_at g1 = neighbours_start_at g2 \<and>
           (\<forall>v<n. mset (segment g1 v) = mset (segment g2 v))"
proof -
  have m: "length edge_list < 2 ^ 31"
    using assms(1) by (simp add: stated_preconditions_def)
  obtain nb1 where run1: "build_graph r1 g edge_list m n =
              Some (g\<lparr>neighbours_start_at := map (\<lambda>p. of_nat (edges_below edge_list p)) [0..<n + 1],
                      neighbours := nb1\<rparr>)"
    and seg1: "\<And>v. v < n \<Longrightarrow>
      mset (take (out_degree edge_list v) (drop (edges_below edge_list v) nb1)) =
      mset (destinations edge_list v)"
    using build_graph_result [OF assms(1,2,3)] by blast
  obtain nb2 where run2: "build_graph r2 g edge_list m n =
              Some (g\<lparr>neighbours_start_at := map (\<lambda>p. of_nat (edges_below edge_list p)) [0..<n + 1],
                      neighbours := nb2\<rparr>)"
    and seg2: "\<And>v. v < n \<Longrightarrow>
      mset (take (out_degree edge_list v) (drop (edges_below edge_list v) nb2)) =
      mset (destinations edge_list v)"
    using build_graph_result [OF assms(1,2,4)] by blast
  define g1 where "g1 = g\<lparr>neighbours_start_at :=
      map (\<lambda>p. of_nat (edges_below edge_list p)) [0..<n + 1], neighbours := nb1\<rparr>"
  define g2 where "g2 = g\<lparr>neighbours_start_at :=
      map (\<lambda>p. of_nat (edges_below edge_list p)) [0..<n + 1], neighbours := nb2\<rparr>"
  have "mset (segment g1 v) = mset (segment g2 v)" if "v < n" for v
    unfolding g1_def g2_def using seg1 [OF that] seg2 [OF that]
    by (simp only: segment_csr [OF m that])
  moreover have "neighbours_start_at g1 = neighbours_start_at g2"
    by (simp add: g1_def g2_def)
  ultimately show ?thesis
    using run1 run2 unfolding g1_def [symmetric] g2_def [symmetric] by blast
qed

text \<open>
  From zeroed offsets and with \<open>n = 0\<close> or \<open>m = 0\<close>, \<^verbatim>\<open>build_graph\<close> returns with an offsets
  array of \<open>n + 1\<close> zeros and an empty \<^verbatim>\<open>neighbours\<close> sequence.
\<close>

lemma build_graph_empty:
  assumes "stated_preconditions g edge_list m n" "zero_on_entry g" "valid_run r m n"
    and "n = 0 \<or> m = 0"
  shows "\<exists>g'. build_graph r g edge_list m n = Some g' \<and>
           neighbours_start_at g' = replicate (n + 1) 0 \<and> neighbours g' = []"
proof -
  have "edge_list = []"
    using assms(1,4) by (cases edge_list) (auto simp: stated_preconditions_def)
  then have m: "m = 0" and none: "edges_below edge_list p = 0" for p
    using assms(1) by (auto simp: stated_preconditions_def edges_below_def)
  obtain nb where run: "build_graph r g edge_list m n =
              Some (g\<lparr>neighbours_start_at := map (\<lambda>p. of_nat (edges_below edge_list p)) [0..<n + 1],
                      neighbours := nb\<rparr>)"
    and len: "length nb = m"
    using build_graph_result [OF assms(1,2,3)] by blast
  define g' where "g' = g\<lparr>neighbours_start_at :=
      map (\<lambda>p. of_nat (edges_below edge_list p)) [0..<n + 1], neighbours := nb\<rparr>"
  have "map (\<lambda>p. of_nat (edges_below edge_list p)) [0..<n + 1] = replicate (n + 1) (0 :: node_t)"
    by (rule nth_equalityI) (simp_all add: none del: upt_Suc replicate_Suc)
  moreover have "neighbours_start_at g' = map (\<lambda>p. of_nat (edges_below edge_list p)) [0..<n + 1]"
    unfolding g'_def by simp
  ultimately have "neighbours_start_at g' = replicate (n + 1) 0"
    by (simp only:)
  moreover have "neighbours g' = []"
    using len m by (simp add: g'_def)
  ultimately show ?thesis
    using run unfolding g'_def [symmetric] by blast
qed

subsection \<open>Two runs, evaluated\<close>

lemma valid_run_in_order: "valid_run (in_order_run junk m n) m n"
  by (simp add: valid_run_def in_order_run_def valid_order_upt)

lemma valid_run_reverse: "valid_run (reverse_run junk m n) m n"
  by (simp add: valid_run_def reverse_run_def valid_order_rev)

lemma store_thread_sg_m:
  "store_thread edges i s = Some s' \<Longrightarrow> sg_m (fst s') = sg_m (fst s)"
  by (auto simp: store_thread_def Let_def split: if_splits option.splits prod.splits)

lemma store_skip_idle:
  assumes "\<And>i. i \<in> set ts \<Longrightarrow> i < 2 ^ 32" "sg_m (fst s) = m"
  shows "store ts edges s = run_seq (store_thread edges) (filter (\<lambda>i. i < m) ts) s"
  using assms
proof (induction ts arbitrary: s)
  case Nil
  show ?case by (simp add: store_def)
next
  case (Cons i ts)
  have gid: "thread_gid i = i"
    using Cons.prems(1) by (intro thread_gid_small) simp
  have rest: "store ts edges s' = run_seq (store_thread edges) (filter (\<lambda>i. i < m) ts) s'"
    if "sg_m (fst s') = m" for s'
    using Cons.prems(1) that by (intro Cons.IH) simp_all
  show ?case
  proof (cases "i < m")
    case True
    show ?thesis
    proof (cases "store_thread edges i s")
      case None
      then show ?thesis using True gid by (simp add: store_def)
    next
      case (Some s')
      then have "sg_m (fst s') = m"
        using store_thread_sg_m Cons.prems(2) by metis
      then show ?thesis
        using True gid Some rest [of s'] by (simp add: store_def)
    qed
  next
    case False
    then have "store_thread edges i s = Some s"
      using Cons.prems(2) by (intro store_thread_idle) simp
    then show ?thesis
      using False gid rest [OF Cons.prems(2)] by (simp add: store_def)
  qed
qed

text \<open>
  \<^verbatim>\<open>build_graph\<close> for the two runs above, with nothing assumed about the contents of the
  arrays or about the sources: only the threads that have an edge remain.
\<close>

lemma build_graph_eval:
  fixes g :: SparseGraph
  assumes sizes: "sg_n g = n" "sg_m g = m" "length edge_list = m"
      "length (neighbours_start_at g) = n + 1"
    and bounds: "n < 6291456" "m < 2 ^ 31"
  defines "hist \<equiv> (\<lambda>j. neighbours_start_at g ! j + of_nat (length (filter
              (\<lambda>e. to_size_t (edge_x e) < n \<and> to_size_t (edge_x e) + 1 = j) edge_list)))"
  shows "build_graph (in_order_run junk m n) g edge_list m n =
         run_seq (store_thread edge_list) [0..<m]
           (g\<lparr>neighbours_start_at := map (\<lambda>p. \<Sum>j\<le>p. hist j) [0..<n + 1]\<rparr>,
            map (\<lambda>p. \<Sum>j\<le>p. hist j) [0..<n])
         \<bind> (\<lambda>s. Some (fst s))"
    and "build_graph (reverse_run junk m n) g edge_list m n =
         run_seq (store_thread edge_list) (rev [0..<m])
           (g\<lparr>neighbours_start_at := map (\<lambda>p. \<Sum>j\<le>p. hist j) [0..<n + 1]\<rparr>,
            map (\<lambda>p. \<Sum>j\<le>p. hist j) [0..<n])
         \<bind> (\<lambda>s. Some (fst s))"
proof -
  let ?s = "(g\<lparr>neighbours_start_at := map (\<lambda>p. \<Sum>j\<le>p. hist j) [0..<n + 1]\<rparr>,
            map (\<lambda>p. \<Sum>j\<le>p. hist j) [0..<n])"
  have K: "m \<le> num_blocks_edges m * 1024" "num_blocks_edges m * 1024 < 2 ^ 32"
    using edge_grid_bounds [OF bounds(2)] by simp_all
  have f1: "filter (\<lambda>i. i < m) [0..<num_blocks_edges m * 1024] = [0..<m]"
    using K(1) by (rule filter_upt_below)
  then have f2: "filter (\<lambda>i. i < m) (rev [0..<num_blocks_edges m * 1024]) = rev [0..<m]"
    by (simp only: rev_filter [symmetric])
  have "store [0..<num_blocks_edges m * 1024] edge_list ?s =
        run_seq (store_thread edge_list) (filter (\<lambda>i. i < m) [0..<num_blocks_edges m * 1024]) ?s"
    using K(2) sizes(2) by (intro store_skip_idle) simp_all
  then have s1: "store (store_order (in_order_run junk m n)) edge_list ?s =
        run_seq (store_thread edge_list) [0..<m] ?s"
    by (simp only: f1 in_order_run_def run.simps)
  have "store (rev [0..<num_blocks_edges m * 1024]) edge_list ?s =
        run_seq (store_thread edge_list)
          (filter (\<lambda>i. i < m) (rev [0..<num_blocks_edges m * 1024])) ?s"
    using K(2) sizes(2) by (intro store_skip_idle) simp_all
  then have s2: "store (store_order (reverse_run junk m n)) edge_list ?s =
        run_seq (store_thread edge_list) (rev [0..<m]) ?s"
    by (simp only: f2 reverse_run_def run.simps)
  show "build_graph (in_order_run junk m n) g edge_list m n =
         run_seq (store_thread edge_list) [0..<m] ?s \<bind> (\<lambda>s. Some (fst s))"
    using build_graph_to_store [OF sizes bounds valid_run_in_order, of junk]
    unfolding hist_def [symmetric] s1 .
  show "build_graph (reverse_run junk m n) g edge_list m n =
         run_seq (store_thread edge_list) (rev [0..<m]) ?s \<bind> (\<lambda>s. Some (fst s))"
    using build_graph_to_store [OF sizes bounds valid_run_reverse, of junk]
    unfolding hist_def [symmetric] s2 .
qed

subsection \<open>Small inputs\<close>

lemma upt_small: "[0..<1] = [0]" "[0..<2] = [0, 1]" "[0..<3] = [0, 1, 2]"
  by (simp_all add: upt_rec)

lemma sum_small:
  fixes f :: "nat \<Rightarrow> node_t"
  shows "(\<Sum>j\<le>0. f j) = f 0" "(\<Sum>j\<le>1. f j) = f 0 + f 1"
    "(\<Sum>j\<le>2. f j) = f 0 + f 1 + f 2"
proof -
  have "{..1::nat} = {0, 1}" "{..2::nat} = {0, 1, 2}" by auto
  then show "(\<Sum>j\<le>0. f j) = f 0" "(\<Sum>j\<le>1. f j) = f 0 + f 1"
    "(\<Sum>j\<le>2. f j) = f 0 + f 1 + f 2"
    by (simp_all add: add.assoc)
qed

lemma to_size_t_small_values: "to_size_t 0 = 0" "to_size_t 1 = 1"
  by (simp_all add: to_size_t_def)

lemma eval_1:
  "build_graph (in_order_run 0 1 1)
     \<lparr>sg_n = 1, sg_m = 1, neighbours_start_at = [0, - 1], neighbours = [5]\<rparr> [Edge 0 0] 1 1 =
   Some \<lparr>sg_n = 1, sg_m = 1, neighbours_start_at = [0, 0], neighbours = [0]\<rparr>"
  by (subst build_graph_eval(1))
     (simp_all add: upt_small sum_small to_size_t_small_values store_thread_def atomicAdd_def)

lemma eval_2:
  "build_graph (in_order_run 0 1 1)
     \<lparr>sg_n = 1, sg_m = 1, neighbours_start_at = [0, 5], neighbours = [5]\<rparr> [Edge 0 0] 1 1 =
   Some \<lparr>sg_n = 1, sg_m = 1, neighbours_start_at = [0, 6], neighbours = [0]\<rparr>"
  by (subst build_graph_eval(1))
     (simp_all add: upt_small sum_small to_size_t_small_values store_thread_def atomicAdd_def)

lemma eval_7:
  "build_graph (in_order_run 0 2 2)
     \<lparr>sg_n = 2, sg_m = 2, neighbours_start_at = [0, - 1, 0], neighbours = [5, 5]\<rparr>
     [Edge 0 0, Edge 1 1] 2 2 =
   Some \<lparr>sg_n = 2, sg_m = 2, neighbours_start_at = [0, 0, 1], neighbours = [1, 5]\<rparr>"
  "build_graph (reverse_run 0 2 2)
     \<lparr>sg_n = 2, sg_m = 2, neighbours_start_at = [0, - 1, 0], neighbours = [5, 5]\<rparr>
     [Edge 0 0, Edge 1 1] 2 2 =
   Some \<lparr>sg_n = 2, sg_m = 2, neighbours_start_at = [0, 0, 1], neighbours = [0, 5]\<rparr>"
  by (subst build_graph_eval,
      simp_all add: upt_small sum_small to_size_t_small_values store_thread_def atomicAdd_def)+

lemma eval_8:
  "build_graph (in_order_run 0 0 1)
     \<lparr>sg_n = 1, sg_m = 0, neighbours_start_at = [3, 4], neighbours = []\<rparr> [] 0 1 =
   Some \<lparr>sg_n = 1, sg_m = 0, neighbours_start_at = [3, 7], neighbours = []\<rparr>"
  by (subst build_graph_eval(1))
     (simp_all add: upt_small sum_small to_size_t_small_values store_thread_def atomicAdd_def)

lemma eval_6:
  "build_graph (in_order_run 0 1 1)
     \<lparr>sg_n = 1, sg_m = 1, neighbours_start_at = [0, 0], neighbours = [0]\<rparr> [Edge 1 0] 1 1 = None"
  by (subst build_graph_eval(1))
     (simp_all add: upt_small sum_small to_size_t_small_values store_thread_def atomicAdd_def)

subsection \<open>Zeroed offsets: instances\<close>

lemma build_graph_segments_witness:
  "stated_preconditions
     \<lparr>sg_n = 2, sg_m = 2, neighbours_start_at = [0, 0, 0], neighbours = [0, 0]\<rparr>
     [Edge 1 0, Edge 0 1] 2 2 \<and>
   zero_on_entry \<lparr>sg_n = 2, sg_m = 2, neighbours_start_at = [0, 0, 0], neighbours = [0, 0]\<rparr> \<and>
   valid_run (reverse_run 0 2 2) 2 2 \<and>
   (\<exists>g'. build_graph (reverse_run 0 2 2)
            \<lparr>sg_n = 2, sg_m = 2, neighbours_start_at = [0, 0, 0], neighbours = [0, 0]\<rparr>
            [Edge 1 0, Edge 0 1] 2 2 = Some g' \<and>
          (\<forall>v<2. mset (segment g' v) = mset (destinations [Edge 1 0, Edge 0 1] v)))"
  using build_graph_segments [of
      "\<lparr>sg_n = 2, sg_m = 2, neighbours_start_at = [0, 0, 0], neighbours = [0, 0]\<rparr>"
      "[Edge 1 0, Edge 0 1]" 2 2 "reverse_run 0 2 2"]
  by (simp add: stated_preconditions_def zero_on_entry_def valid_run_reverse
      to_size_t_small_values)

lemma build_graph_offsets_witness:
  "stated_preconditions
     \<lparr>sg_n = 2, sg_m = 2, neighbours_start_at = [0, 0, 0], neighbours = [0, 0]\<rparr>
     [Edge 1 0, Edge 0 1] 2 2 \<and>
   zero_on_entry \<lparr>sg_n = 2, sg_m = 2, neighbours_start_at = [0, 0, 0], neighbours = [0, 0]\<rparr> \<and>
   valid_run (in_order_run 5 2 2) 2 2 \<and>
   (\<exists>g'. build_graph (in_order_run 5 2 2)
            \<lparr>sg_n = 2, sg_m = 2, neighbours_start_at = [0, 0, 0], neighbours = [0, 0]\<rparr>
            [Edge 1 0, Edge 0 1] 2 2 = Some g' \<and>
          length (neighbours_start_at g') = 2 + 1 \<and>
          neighbours_start_at g' ! 0 = 0 \<and>
          sint (neighbours_start_at g' ! 2) = int 2 \<and>
          (\<forall>i<2. sint (neighbours_start_at g' ! i) \<le> sint (neighbours_start_at g' ! (i + 1))))"
  using build_graph_offsets [of
      "\<lparr>sg_n = 2, sg_m = 2, neighbours_start_at = [0, 0, 0], neighbours = [0, 0]\<rparr>"
      "[Edge 1 0, Edge 0 1]" 2 2 "in_order_run 5 2 2"]
  by (simp add: stated_preconditions_def zero_on_entry_def valid_run_in_order
      to_size_t_small_values)

lemma build_graph_deterministic_witness:
  "stated_preconditions
     \<lparr>sg_n = 2, sg_m = 2, neighbours_start_at = [0, 0, 0], neighbours = [0, 0]\<rparr>
     [Edge 1 0, Edge 1 1] 2 2 \<and>
   zero_on_entry \<lparr>sg_n = 2, sg_m = 2, neighbours_start_at = [0, 0, 0], neighbours = [0, 0]\<rparr> \<and>
   valid_run (in_order_run 0 2 2) 2 2 \<and> valid_run (reverse_run 9 2 2) 2 2 \<and>
   (\<exists>g1 g2.
      build_graph (in_order_run 0 2 2)
        \<lparr>sg_n = 2, sg_m = 2, neighbours_start_at = [0, 0, 0], neighbours = [0, 0]\<rparr>
        [Edge 1 0, Edge 1 1] 2 2 = Some g1 \<and>
      build_graph (reverse_run 9 2 2)
        \<lparr>sg_n = 2, sg_m = 2, neighbours_start_at = [0, 0, 0], neighbours = [0, 0]\<rparr>
        [Edge 1 0, Edge 1 1] 2 2 = Some g2 \<and>
      neighbours_start_at g1 = neighbours_start_at g2 \<and>
      (\<forall>v<2. mset (segment g1 v) = mset (segment g2 v)))"
  using build_graph_deterministic [of
      "\<lparr>sg_n = 2, sg_m = 2, neighbours_start_at = [0, 0, 0], neighbours = [0, 0]\<rparr>"
      "[Edge 1 0, Edge 1 1]" 2 2 "in_order_run 0 2 2" "reverse_run 9 2 2"]
  by (simp add: stated_preconditions_def zero_on_entry_def valid_run_in_order valid_run_reverse
      to_size_t_small_values)

lemma build_graph_empty_witness:
  "stated_preconditions
     \<lparr>sg_n = 3, sg_m = 0, neighbours_start_at = [0, 0, 0, 0], neighbours = []\<rparr> [] 0 3 \<and>
   zero_on_entry \<lparr>sg_n = 3, sg_m = 0, neighbours_start_at = [0, 0, 0, 0], neighbours = []\<rparr> \<and>
   valid_run (in_order_run 4 0 3) 0 3 \<and> ((3::nat) = 0 \<or> (0::nat) = 0) \<and>
   (\<exists>g'. build_graph (in_order_run 4 0 3)
            \<lparr>sg_n = 3, sg_m = 0, neighbours_start_at = [0, 0, 0, 0], neighbours = []\<rparr> [] 0 3 =
          Some g' \<and>
          neighbours_start_at g' = replicate (3 + 1) 0 \<and> neighbours g' = [])"
  using build_graph_empty [of
      "\<lparr>sg_n = 3, sg_m = 0, neighbours_start_at = [0, 0, 0, 0], neighbours = []\<rparr>"
      "[]" 0 3 "in_order_run 4 0 3"]
  by (simp add: stated_preconditions_def zero_on_entry_def valid_run_in_order)

subsection \<open>\<^verbatim>\<open>build_graph\<close> on offsets that are only allocated\<close>

text \<open>
  The documentation of \<^verbatim>\<open>build_graph\<close> asks only that the pointers of the graph have
  already been allocated. \<^verbatim>\<open>histogram\<close> increments the cells of the offsets array with
  \<^verbatim>\<open>atomicAdd\<close>, \<^verbatim>\<open>offsets[0]\<close> keeps its entry value, and no kernel and no host statement
  sets the array to zero first: what the array holds on entry is added into the result.
  The inputs below meet the preconditions, with every edge component a vertex index.
\<close>

text \<open>
  Claim C1. One vertex, the edge \<open>(0, 0)\<close>, \<^verbatim>\<open>offsets = [0, -1]\<close> and \<^verbatim>\<open>neighbours = [5]\<close> on
  entry. \<^verbatim>\<open>build_graph\<close> returns \<^verbatim>\<open>offsets = [0, 0]\<close> and \<^verbatim>\<open>neighbours = [0]\<close>: the sub-range
  \<^verbatim>\<open>neighbours[offsets[0] .. offsets[1])\<close> of vertex 0 is empty, and the destinations of the
  edges that leave vertex 0 are \<open>[0]\<close>. The sub-range does not hold the destinations.
\<close>

theorem build_graph_unzeroed_segment:
  "stated_preconditions
     \<lparr>sg_n = 1, sg_m = 1, neighbours_start_at = [0, - 1], neighbours = [5]\<rparr> [Edge 0 0] 1 1 \<and>
   to_size_t (edge_y (Edge 0 0)) < 1 \<and>
   valid_run (in_order_run 0 1 1) 1 1 \<and>
   build_graph (in_order_run 0 1 1)
     \<lparr>sg_n = 1, sg_m = 1, neighbours_start_at = [0, - 1], neighbours = [5]\<rparr> [Edge 0 0] 1 1 =
   Some \<lparr>sg_n = 1, sg_m = 1, neighbours_start_at = [0, 0], neighbours = [0]\<rparr> \<and>
   segment \<lparr>sg_n = 1, sg_m = 1, neighbours_start_at = [0, 0], neighbours = [0]\<rparr> 0 = [] \<and>
   destinations [Edge 0 0] 0 = [0]"
  using eval_1
  by (simp add: stated_preconditions_def valid_run_in_order segment_def offset_def
      destinations_def to_size_t_small_values)

text \<open>
  Claim C2. One vertex, the edge \<open>(0, 0)\<close>, \<^verbatim>\<open>offsets = [0, 5]\<close> and \<^verbatim>\<open>neighbours = [5]\<close> on
  entry. \<^verbatim>\<open>build_graph\<close> returns \<^verbatim>\<open>offsets = [0, 6]\<close>: \<^verbatim>\<open>offsets[n]\<close> is 6, and \<open>m\<close> is 1.
  \<^verbatim>\<open>offsets[n] == m\<close> does not hold.
\<close>

theorem build_graph_unzeroed_total:
  "stated_preconditions
     \<lparr>sg_n = 1, sg_m = 1, neighbours_start_at = [0, 5], neighbours = [5]\<rparr> [Edge 0 0] 1 1 \<and>
   to_size_t (edge_y (Edge 0 0)) < 1 \<and>
   valid_run (in_order_run 0 1 1) 1 1 \<and>
   build_graph (in_order_run 0 1 1)
     \<lparr>sg_n = 1, sg_m = 1, neighbours_start_at = [0, 5], neighbours = [5]\<rparr> [Edge 0 0] 1 1 =
   Some \<lparr>sg_n = 1, sg_m = 1, neighbours_start_at = [0, 6], neighbours = [0]\<rparr> \<and>
   sint (neighbours_start_at
     \<lparr>sg_n = 1, sg_m = 1, neighbours_start_at = [0, 6], neighbours = [0]\<rparr> ! 1) = 6 \<and>
   sg_m \<lparr>sg_n = 1, sg_m = 1, neighbours_start_at = [0, 6], neighbours = [0]\<rparr> = 1"
  using eval_2
  by (simp add: stated_preconditions_def valid_run_in_order to_size_t_small_values)

text \<open>
  Claim C7. Two vertices, the edges \<open>(0, 0)\<close> and \<open>(1, 1)\<close>, \<^verbatim>\<open>offsets = [0, -1, 0]\<close> and
  \<^verbatim>\<open>neighbours = [5, 5]\<close> on entry. Both runs return \<^verbatim>\<open>offsets = [0, 0, 1]\<close>; both edges are
  given position 0 of \<^verbatim>\<open>neighbours\<close>, and the later write stays. The sub-range
  \<^verbatim>\<open>neighbours[offsets[1] .. offsets[2])\<close> of vertex 1 is \<open>[1]\<close> when the threads run in the
  order of their numbers and \<open>[0]\<close> when they run in the opposite order: two runs on one
  input return segments that differ as multisets.
\<close>

theorem build_graph_unzeroed_runs_differ:
  "stated_preconditions
     \<lparr>sg_n = 2, sg_m = 2, neighbours_start_at = [0, - 1, 0], neighbours = [5, 5]\<rparr>
     [Edge 0 0, Edge 1 1] 2 2 \<and>
   to_size_t (edge_y (Edge 0 0)) < 2 \<and> to_size_t (edge_y (Edge 1 1)) < 2 \<and>
   valid_run (in_order_run 0 2 2) 2 2 \<and> valid_run (reverse_run 0 2 2) 2 2 \<and>
   build_graph (in_order_run 0 2 2)
     \<lparr>sg_n = 2, sg_m = 2, neighbours_start_at = [0, - 1, 0], neighbours = [5, 5]\<rparr>
     [Edge 0 0, Edge 1 1] 2 2 =
   Some \<lparr>sg_n = 2, sg_m = 2, neighbours_start_at = [0, 0, 1], neighbours = [1, 5]\<rparr> \<and>
   build_graph (reverse_run 0 2 2)
     \<lparr>sg_n = 2, sg_m = 2, neighbours_start_at = [0, - 1, 0], neighbours = [5, 5]\<rparr>
     [Edge 0 0, Edge 1 1] 2 2 =
   Some \<lparr>sg_n = 2, sg_m = 2, neighbours_start_at = [0, 0, 1], neighbours = [0, 5]\<rparr> \<and>
   segment \<lparr>sg_n = 2, sg_m = 2, neighbours_start_at = [0, 0, 1], neighbours = [1, 5]\<rparr> 1 = [1] \<and>
   segment \<lparr>sg_n = 2, sg_m = 2, neighbours_start_at = [0, 0, 1], neighbours = [0, 5]\<rparr> 1 = [0]"
  using eval_7
  by (simp add: stated_preconditions_def valid_run_in_order valid_run_reverse
      segment_def offset_def to_size_t_small_values)

text \<open>
  Claim C8. One vertex, no edge (\<open>m = 0\<close>), and \<^verbatim>\<open>offsets = [3, 4]\<close> on entry. \<^verbatim>\<open>build_graph\<close>
  returns \<^verbatim>\<open>offsets = [3, 7]\<close>: the scan has added the entry value of \<^verbatim>\<open>offsets[0]\<close> to
  \<^verbatim>\<open>offsets[1]\<close>. The offsets array is not entirely zero.
\<close>

theorem build_graph_unzeroed_no_edges:
  "stated_preconditions
     \<lparr>sg_n = 1, sg_m = 0, neighbours_start_at = [3, 4], neighbours = []\<rparr> [] 0 1 \<and>
   valid_run (in_order_run 0 0 1) 0 1 \<and>
   build_graph (in_order_run 0 0 1)
     \<lparr>sg_n = 1, sg_m = 0, neighbours_start_at = [3, 4], neighbours = []\<rparr> [] 0 1 =
   Some \<lparr>sg_n = 1, sg_m = 0, neighbours_start_at = [3, 7], neighbours = []\<rparr> \<and>
   neighbours_start_at \<lparr>sg_n = 1, sg_m = 0, neighbours_start_at = [3, 7], neighbours = []\<rparr> \<noteq>
   replicate (1 + 1) 0"
  using eval_8
  by (simp add: stated_preconditions_def valid_run_in_order)

subsection \<open>An edge whose source is out of range\<close>

text \<open>
  Claim C6. One vertex and the single edge \<open>(1, 0)\<close>, whose source is \<open>n\<close>. \<^verbatim>\<open>histogram\<close>
  tests \<^verbatim>\<open>incident_vertex < g->n\<close> and leaves the offsets as they are; \<^verbatim>\<open>store\<close> has no such
  test and performs \<^verbatim>\<open>atomicAdd(scratch + 1, 1)\<close> on the one-element counter array: the
  behaviour of \<^verbatim>\<open>build_graph\<close> is undefined, the edge is not skipped.
\<close>

theorem store_does_not_drop_out_of_range_source:
  "to_size_t (edge_x (Edge 1 0)) = 1 \<and>
   histogram (hist_order (in_order_run 0 1 1)) [Edge 1 0] 1
     \<lparr>sg_n = 1, sg_m = 1, neighbours_start_at = [0, 0], neighbours = [0]\<rparr> =
   Some \<lparr>sg_n = 1, sg_m = 1, neighbours_start_at = [0, 0], neighbours = [0]\<rparr> \<and>
   build_graph (in_order_run 0 1 1)
     \<lparr>sg_n = 1, sg_m = 1, neighbours_start_at = [0, 0], neighbours = [0]\<rparr> [Edge 1 0] 1 1 = None"
proof -
  have "valid_order (num_blocks_edges 1 * 1024) (hist_order (in_order_run 0 1 1))"
    using valid_run_in_order [of 0 1 1] by (simp add: valid_run_def)
  then have "histogram (hist_order (in_order_run 0 1 1)) [Edge 1 0] 1
     \<lparr>sg_n = 1, sg_m = 1, neighbours_start_at = [0, 0], neighbours = [0]\<rparr> =
     Some (\<lparr>sg_n = 1, sg_m = 1, neighbours_start_at = [0, 0], neighbours = [0]\<rparr>
       \<lparr>neighbours_start_at :=
           map (\<lambda>p. neighbours_start_at \<lparr>sg_n = 1, sg_m = 1, neighbours_start_at = [0, 0],
                      neighbours = [0]\<rparr> ! p + of_nat (length (filter
                  (\<lambda>e. to_size_t (edge_x e) < 1 \<and> to_size_t (edge_x e) + 1 = p) [Edge 1 0])))
             [0..<length (neighbours_start_at \<lparr>sg_n = 1, sg_m = 1,
                neighbours_start_at = [0, 0], neighbours = [0]\<rparr>)]\<rparr>)"
    by (intro histogram_eq) simp_all
  then show ?thesis
    using eval_6 by (simp add: upt_small to_size_t_small_values)
qed

subsection \<open>More groups than the cross-group scan holds\<close>

text \<open>
  Claim C5, amended. \<^verbatim>\<open>build_graph\<close> has no capacity check. For every input whose number of
  groups exceeds 6144 (\<open>n + 1 > 6144 * 1024\<close>; sizes as stated, \<open>n, m < 2^31\<close>) it rejects
  nothing: \<^verbatim>\<open>histogram\<close> and \<^verbatim>\<open>prefix_sum\<close> run and complete, then
  \<^verbatim>\<open>single_block_prefix_sum\<close> is launched on all group totals and indexes its 6144-cell
  shared arrays out of range, so the behaviour of \<^verbatim>\<open>build_graph\<close> is undefined.
\<close>

theorem build_graph_over_capacity:
  assumes "sg_n g = n" "sg_m g = m" "length edge_list = m"
    and "length (neighbours_start_at g) = n + 1"
    and "6291456 \<le> n" "n < 2 ^ 31" "m < 2 ^ 31" "valid_run r m n"
  shows "6144 < num_blocks n \<and>
         (\<exists>g1 g2 bs.
            histogram (hist_order r) edge_list m g = Some g1 \<and>
            prefix_sum (scan_order r) (n + 1) (g1, map (blk_sums_init r) [0..<num_blocks n]) =
              Some (g2, bs) \<and>
            single_block_prefix_sum (smem_init r) (scratch_init r) bs (num_blocks n) = None) \<and>
         build_graph r g edge_list m n = None"
proof -
  have nb: "num_blocks n = (n + 1024) div 1024"
    using assms(6) by (intro num_blocks_small) simp
  then have big: "6144 < num_blocks n"
    using assms(5) by simp
  have blk: "1024 * b < n + 1" if "b < num_blocks n" for b
    using that unfolding nb by simp
  have ords: "valid_order (num_blocks_edges m * 1024) (hist_order r)"
    "valid_order (num_blocks n) (scan_order r)"
    using assms(8) by (simp_all add: valid_run_def)
  define offs1 where "offs1 = map (\<lambda>p. neighbours_start_at g ! p + of_nat (length (filter
                  (\<lambda>e. to_size_t (edge_x e) < n \<and> to_size_t (edge_x e) + 1 = p) edge_list)))
             [0..<length (neighbours_start_at g)]"
  define g1 where "g1 = g\<lparr>neighbours_start_at := offs1\<rparr>"
  have k1: "histogram (hist_order r) edge_list m g = Some g1"
    unfolding g1_def offs1_def using assms ords(1) by (intro histogram_eq) simp_all
  define bs0 where "bs0 = map (blk_sums_init r) [0..<num_blocks n]"
  define offs2 where "offs2 = map (\<lambda>p. if p < n + 1 \<and> p div 1024 \<in> set (scan_order r)
                            then (\<Sum>j\<in>{1024 * (p div 1024)..p}. neighbours_start_at g1 ! j)
                            else neighbours_start_at g1 ! p)
                     [0..<length (neighbours_start_at g1)]"
  define bs1 where "bs1 = map (\<lambda>c. if c \<in> set (scan_order r)
                        then (\<Sum>j\<in>{1024 * c..min (1024 * c + 1023) (n + 1 - 1)}.
                                neighbours_start_at g1 ! j)
                        else bs0 ! c) [0..<length bs0]"
  have k2: "prefix_sum (scan_order r) (n + 1) (g1, bs0) =
            Some (g1\<lparr>neighbours_start_at := offs2\<rparr>, bs1)"
    unfolding offs2_def bs1_def
    using assms(4,6) valid_order_distinct [OF ords(2)] valid_order_set [OF ords(2)] blk
    by (intro prefix_sum_partial) (simp_all add: g1_def offs1_def bs0_def)
  have k3: "single_block_prefix_sum (smem_init r) (scratch_init r) bs1 (num_blocks n) = None"
    using big by (intro single_block_prefix_sum_out_of_bounds) simp
  have N: "(n + 1) mod 2 ^ 64 = n + 1"
    using assms(6) by simp
  have "scan_stages r g1 n = None"
    unfolding scan_stages_def Let_def N bs0_def [symmetric]
    by (simp only: k2 k3 Option.bind.simps prod.case)
  then have "build_graph r g edge_list m n = None"
    unfolding build_graph_def by (simp only: k1 Option.bind.simps)
  with big k1 k2 k3 show ?thesis
    unfolding bs0_def by blast
qed

theorem build_graph_over_capacity_witness:
  "sg_n \<lparr>sg_n = 6291456, sg_m = 0, neighbours_start_at = replicate 6291457 0,
      neighbours = []\<rparr> = 6291456 \<and>
   sg_m \<lparr>sg_n = 6291456, sg_m = 0, neighbours_start_at = replicate 6291457 0,
      neighbours = []\<rparr> = 0 \<and>
   length ([] :: edge_t list) = 0 \<and>
   length (neighbours_start_at \<lparr>sg_n = 6291456, sg_m = 0,
      neighbours_start_at = replicate 6291457 0, neighbours = []\<rparr>) = 6291456 + 1 \<and>
   (6291456 :: nat) \<le> 6291456 \<and> (6291456 :: nat) < 2 ^ 31 \<and> (0 :: nat) < 2 ^ 31 \<and>
   valid_run (reverse_run 0 0 6291456) 0 6291456 \<and>
   6144 < num_blocks 6291456 \<and>
   (\<exists>g1 g2 bs.
      histogram (hist_order (reverse_run 0 0 6291456)) [] 0
        \<lparr>sg_n = 6291456, sg_m = 0, neighbours_start_at = replicate 6291457 0,
           neighbours = []\<rparr> = Some g1 \<and>
      prefix_sum (scan_order (reverse_run 0 0 6291456)) (6291456 + 1)
        (g1, map (blk_sums_init (reverse_run 0 0 6291456)) [0..<num_blocks 6291456]) =
        Some (g2, bs) \<and>
      single_block_prefix_sum (smem_init (reverse_run 0 0 6291456))
        (scratch_init (reverse_run 0 0 6291456)) bs (num_blocks 6291456) = None) \<and>
   build_graph (reverse_run 0 0 6291456)
     \<lparr>sg_n = 6291456, sg_m = 0, neighbours_start_at = replicate 6291457 0, neighbours = []\<rparr>
     [] 0 6291456 = None"
  using build_graph_over_capacity [of
      "\<lparr>sg_n = 6291456, sg_m = 0, neighbours_start_at = replicate 6291457 0, neighbours = []\<rparr>"
      6291456 0 "[]" "reverse_run 0 0 6291456"]
  by (simp add: valid_run_reverse)

subsection \<open>The smallest input over the capacity\<close>

lemma map_upt_const: "(\<And>p. p < k \<Longrightarrow> f p = c) \<Longrightarrow> map f [0..<k] = replicate k c"
  by (simp add: list_eq_iff_nth_eq)

text \<open>
  The claim as stated fails at the smallest input over the capacity: \<open>n = 6291456\<close> vertices,
  no edges, offsets zero on entry. There are 6145 groups. Nothing is rejected:
  \<^verbatim>\<open>histogram\<close> and \<^verbatim>\<open>prefix_sum\<close> complete, and \<^verbatim>\<open>single_block_prefix_sum\<close> is run on the
  6145 group totals, out of the range of its shared arrays.
\<close>

theorem build_graph_over_capacity_counterexample:
  "num_blocks 6291456 = 6145 \<and>
   histogram (hist_order (in_order_run 7 0 6291456)) [] 0
     \<lparr>sg_n = 6291456, sg_m = 0, neighbours_start_at = replicate 6291457 0, neighbours = []\<rparr> =
   Some \<lparr>sg_n = 6291456, sg_m = 0, neighbours_start_at = replicate 6291457 0,
      neighbours = []\<rparr> \<and>
   prefix_sum (scan_order (in_order_run 7 0 6291456)) (6291456 + 1)
     (\<lparr>sg_n = 6291456, sg_m = 0, neighbours_start_at = replicate 6291457 0, neighbours = []\<rparr>,
      map (blk_sums_init (in_order_run 7 0 6291456)) [0..<num_blocks 6291456]) =
   Some (\<lparr>sg_n = 6291456, sg_m = 0, neighbours_start_at = replicate 6291457 0,
      neighbours = []\<rparr>, replicate 6145 0) \<and>
   single_block_prefix_sum (smem_init (in_order_run 7 0 6291456))
     (scratch_init (in_order_run 7 0 6291456)) (replicate 6145 0) (num_blocks 6291456) = None \<and>
   build_graph (in_order_run 7 0 6291456)
     \<lparr>sg_n = 6291456, sg_m = 0, neighbours_start_at = replicate 6291457 0, neighbours = []\<rparr>
     [] 0 6291456 = None"
proof -
  define N :: nat where "N = 6291457"
  define zs :: "node_t list" where "zs = replicate N 0"
  define G where "G = \<lparr>sg_n = 6291456, sg_m = 0, neighbours_start_at = zs, neighbours = []\<rparr>"
  define R where "R = in_order_run 7 0 6291456"
  have nb: "num_blocks 6291456 = 6145"
    by (simp add: num_blocks_small)
  have vr: "valid_run R 0 6291456"
    unfolding R_def by (rule valid_run_in_order)
  have so: "scan_order R = [0..<6145]"
    unfolding R_def in_order_run_def by (simp add: nb)
  define bs0 where "bs0 = map (blk_sums_init R) [0..<6145]"
  have z: "zs ! j = 0" if "j < N" for j
    using that by (simp add: zs_def)
  have lz: "length zs = N"
    by (simp add: zs_def)
  have G_upd: "G\<lparr>neighbours_start_at := zs\<rparr> = G"
    by (simp add: G_def)
  have "histogram (hist_order R) [] 0 G =
        Some (G\<lparr>neighbours_start_at :=
           map (\<lambda>p. neighbours_start_at G ! p + of_nat (length (filter
                  (\<lambda>e. to_size_t (edge_x e) < 6291456 \<and> to_size_t (edge_x e) + 1 = p) [])))
             [0..<length (neighbours_start_at G)]\<rparr>)"
    using vr by (intro histogram_eq [where m = 0]) (simp_all add: G_def valid_run_def lz N_def)
  also have "map (\<lambda>p. neighbours_start_at G ! p + of_nat (length (filter
                  (\<lambda>e. to_size_t (edge_x e) < 6291456 \<and> to_size_t (edge_x e) + 1 = p) [])))
             [0..<length (neighbours_start_at G)] = zs"
    by (simp add: G_def lz zs_def map_upt_const)
  finally have k1: "histogram (hist_order R) [] 0 G = Some G"
    by (simp only: G_upd)
  have "prefix_sum [0..<6145] N (G, bs0) =
         Some (G\<lparr>neighbours_start_at :=
                   map (\<lambda>p. if p < N \<and> p div 1024 \<in> set [0..<6145]
                            then (\<Sum>j\<in>{1024 * (p div 1024)..p}. neighbours_start_at G ! j)
                            else neighbours_start_at G ! p)
                     [0..<length (neighbours_start_at G)]\<rparr>,
               map (\<lambda>c. if c \<in> set [0..<6145]
                        then (\<Sum>j\<in>{1024 * c..min (1024 * c + 1023) (N - 1)}.
                                neighbours_start_at G ! j)
                        else bs0 ! c) [0..<length bs0])"
    by (intro prefix_sum_partial) (simp_all add: G_def lz bs0_def N_def)
  also have "map (\<lambda>p. if p < N \<and> p div 1024 \<in> set [0..<6145]
                            then (\<Sum>j\<in>{1024 * (p div 1024)..p}. neighbours_start_at G ! j)
                            else neighbours_start_at G ! p)
                     [0..<length (neighbours_start_at G)] = zs"
  proof -
    have "(if p < N \<and> p div 1024 \<in> set [0..<6145]
           then (\<Sum>j\<in>{1024 * (p div 1024)..p}. neighbours_start_at G ! j)
           else neighbours_start_at G ! p) = 0" if "p < N" for p
    proof -
      have "(\<Sum>j\<in>{1024 * (p div 1024)..p}. zs ! j) = 0"
        using that by (intro sum.neutral) (simp add: z)
      then show ?thesis
        using that by (simp add: G_def z)
    qed
    then have "map (\<lambda>p. if p < N \<and> p div 1024 \<in> set [0..<6145]
                            then (\<Sum>j\<in>{1024 * (p div 1024)..p}. neighbours_start_at G ! j)
                            else neighbours_start_at G ! p) [0..<N] = replicate N 0"
      by (rule map_upt_const)
    then show ?thesis
      by (simp add: G_def lz zs_def)
  qed
  also have "map (\<lambda>c. if c \<in> set [0..<6145]
                        then (\<Sum>j\<in>{1024 * c..min (1024 * c + 1023) (N - 1)}.
                                neighbours_start_at G ! j)
                        else bs0 ! c) [0..<length bs0] = replicate 6145 0"
  proof -
    have "(if c \<in> set [0..<6145]
           then (\<Sum>j\<in>{1024 * c..min (1024 * c + 1023) (N - 1)}. neighbours_start_at G ! j)
           else bs0 ! c) = 0" if "c < 6145" for c
    proof -
      have "(\<Sum>j\<in>{1024 * c..min (1024 * c + 1023) (N - 1)}. zs ! j) = 0"
        by (intro sum.neutral) (simp add: z N_def)
      then show ?thesis
        using that by (simp add: G_def)
    qed
    then have "map (\<lambda>c. if c \<in> set [0..<6145]
           then (\<Sum>j\<in>{1024 * c..min (1024 * c + 1023) (N - 1)}. neighbours_start_at G ! j)
           else bs0 ! c) [0..<6145] = replicate 6145 0"
      by (rule map_upt_const)
    then show ?thesis
      by (simp add: bs0_def)
  qed
  finally have k2: "prefix_sum [0..<6145] N (G, bs0) = Some (G, replicate 6145 0)"
    by (simp only: G_upd)
  have k3: "single_block_prefix_sum (smem_init R) (scratch_init R) (replicate 6145 0) 6145 = None"
    by (intro single_block_prefix_sum_out_of_bounds) simp
  have M: "6291456 + 1 = N" "N mod 2 ^ 64 = N"
    by (simp_all add: N_def)
  have sel: "sg_n G = 6291456"
    by (simp add: G_def)
  have "scan_stages R G 6291456 = None"
    unfolding scan_stages_def Let_def M nb so bs0_def [symmetric]
    by (simp only: k2 k3 Option.bind.simps prod.case)
  then have k4: "build_graph R G [] 0 6291456 = None"
    unfolding build_graph_def by (simp only: k1 Option.bind.simps)
  from nb k1 k2 k3 k4 show ?thesis
    unfolding M nb so [symmetric] bs0_def G_def zs_def R_def N_def
    by (simp only: so nb M N_def)
qed

subsection \<open>Barrier rounds of \<^verbatim>\<open>single_block_prefix_sum\<close>\<close>

lemma count_list_append: "count_list (xs @ ys) a = count_list xs a + count_list ys a"
  by (induction xs) auto

lemma count_list_concat_zero:
  "(\<And>xs. xs \<in> set xss \<Longrightarrow> count_list xs a = 0) \<Longrightarrow> count_list (concat xss) a = 0"
  by (induction xss) (auto simp: count_list_append)

lemma load_events_no_sync: "count_list (load_events th_id n) Sync = 0"
  unfolding load_events_def by (rule count_list_concat_zero) auto

lemma copy_events_no_sync: "count_list (copy_events th_id n) Sync = 0"
  unfolding copy_events_def by (rule count_list_concat_zero) auto

lemma store_events_no_sync: "count_list (store_events th_id n) Sync = 0"
  unfolding store_events_def by (rule count_list_concat_zero) auto

lemma lane_events_sync:
  "count_list (lane_events my_lane iteration items n stride) Sync = 2 * (items - iteration)"
proof (induction my_lane iteration items n stride rule: lane_events.induct)
  case (1 my_lane iteration items n stride)
  show ?case
  proof (cases "iteration < items")
    case True
    then show ?thesis
      using "1.IH" by (subst lane_events.simps) (simp add: count_list_append)
  next
    case False
    then show ?thesis
      by (subst lane_events.simps) simp
  qed
qed

lemma stride_events_sync:
  "count_list (stride_events th_id stride n) Sync = count_list (stride_events 0 stride n) Sync"
proof (induction th_id stride n rule: stride_events.induct)
  case (1 th_id stride n)
  show ?case
  proof (cases "0 < stride \<and> stride < n")
    case True
    then show ?thesis
      using "1.IH"
      by (subst stride_events.simps, subst (2) stride_events.simps)
         (simp add: count_list_append copy_events_no_sync lane_events_sync)
  next
    case False
    then show ?thesis
      by (subst stride_events.simps, subst (2) stride_events.simps) simp
  qed
qed

lemma barrier_rounds_thread_0: "barrier_rounds th_id n = barrier_rounds 0 n"
  unfolding barrier_rounds_def thread_events_def
  by (simp add: count_list_append load_events_no_sync store_events_no_sync
      stride_events_sync [of th_id])

text \<open>
  Claim C9. In \<^verbatim>\<open>single_block_prefix_sum\<close>, for every array length \<open>n\<close>, any two
  threads arrive at \<^verbatim>\<open>__syncthreads()\<close> the same number of times, whether or not
  their lanes are in range.
\<close>

theorem single_block_same_barrier_rounds:
  "barrier_rounds th_id n = barrier_rounds th_id' n"
  using barrier_rounds_thread_0 [of th_id n] barrier_rounds_thread_0 [of th_id' n] by simp

theorem single_block_same_barrier_rounds_witness:
  "barrier_rounds 0 1500 = barrier_rounds 1023 1500"
  using single_block_same_barrier_rounds [of 0 1500 1023] by simp

end
